theory Spec2Isabelle
  imports Main "HOL-Library.Multiset"
begin

section \<open>pkgstats: which popular repositories require a Go package\<close>

text \<open>
  A shallow embedding of \<^verbatim>\<open>main.go\<close>. The program reads a CSV cache, pages through a
  repository search, inspects the \<^verbatim>\<open>go.mod\<close> files of every repository that is not yet
  cached, merges what it found into the cache and rewrites the cache file, sorted by
  star count. Everything outside the process (the GitHub client, the context, the
  file) is a parameter of the model; every call the program makes to it is recorded.
\<close>

subsection \<open>Data\<close>

text \<open>\<^verbatim>\<open>type repoResult struct { name string; used bool; stars int }\<close>\<close>

record repoResult =
  name :: string
  used :: bool
  stars :: int

text \<open>
  \<^verbatim>\<open>type searchResult struct\<close>; the \<^verbatim>\<open>client\<close> field is the \<open>github\<close> record below, passed
  alongside. Go maps are partial functions; the delays are counted in seconds.
\<close>

record searchResult =
  cache :: "string \<rightharpoonup> repoResult"
  packageName :: string
  paginationDelay :: nat
  searchDelay :: nat

text \<open>
  What the program reads of a \<^verbatim>\<open>github.Repository\<close>, through the getters of the same
  names (\<open>GetOwnerLogin\<close> is \<^verbatim>\<open>GetOwner().GetLogin()\<close>).
\<close>

record repository =
  GetFullName :: string
  GetOwnerLogin :: string
  GetName :: string
  GetArchived :: bool
  GetDisabled :: bool
  GetFork :: bool
  GetStargazersCount :: int

text \<open>A \<^verbatim>\<open>github.CodeResult\<close> and a \<^verbatim>\<open>modfile.Require\<close>.\<close>

record codeResult =
  GetPath :: string
  GetHTMLURL :: string

record require =
  Mod_Path :: string
  Mod_Version :: string
  Indirect :: bool

subsection \<open>The context\<close>

text \<open>
  A Go context is done from some moment on and stays done, with one fixed error. It
  can become done at any point of the run, so its time is counted in everything the
  program does to the outside: \<open>done_after = Some n\<close> closes \<^verbatim>\<open>ctx.Done()\<close> once \<open>n\<close> calls
  and printed lines have happened (\<open>moment\<close> below), and \<open>None\<close> never does. Between two
  checks of the context the program always makes a call or prints a line.
\<close>

datatype ctx_error = Canceled | DeadlineExceeded

record go_context =
  done_after :: "nat option"
  cause :: ctx_error

definition ctx_Err :: "go_context \<Rightarrow> nat \<Rightarrow> ctx_error option" where
  "ctx_Err c t =
     (case done_after c of
        None \<Rightarrow> None
      | Some n \<Rightarrow> if n \<le> t then Some (cause c) else None)"

subsection \<open>The GitHub client and what the program does to the outside\<close>

text \<open>
  The answers of the remote API. Each one may depend on the number of calls made
  before the request (\<open>now\<close> below), so that any sequence of answers is a \<open>github\<close>. \<open>None\<close> is the \<^verbatim>\<open>err != nil\<close> of the call. \<open>Search_Repositories\<close> answers
  a query and a page number with the page and \<^verbatim>\<open>resp.NextPage\<close>. A download is the
  \<^verbatim>\<open>DownloadContents\<close>, \<^verbatim>\<open>io.ReadAll\<close>, \<^verbatim>\<open>reader.Close\<close> sequence, each of which can
  fail. \<open>modfile_Parse\<close> is the manifest parser, \<open>None\<close> when it rejects the bytes.
\<close>

datatype download = DownloadError | ReadError | CloseError | Body string

record github =
  Search_Repositories :: "nat \<Rightarrow> string \<Rightarrow> nat \<Rightarrow> (repository list \<times> nat) option"
  Search_Code :: "nat \<Rightarrow> string \<Rightarrow> codeResult list option"
  DownloadContents :: "nat \<Rightarrow> string \<Rightarrow> string \<Rightarrow> string \<Rightarrow> download"
  modfile_Parse :: "string \<Rightarrow> require list option"
  ctx :: go_context

datatype call =
    CallSearchRepositories string nat
  | CallSearchCode string
  | CallDownloadContents string string string
  | CallSleep nat

text \<open>The lines the two search functions print, one constructor for each \<^verbatim>\<open>fmt.Print\<close>.\<close>

datatype message =
    MsgContextCanceled
  | MsgErrorSearchingTheRepositories ctx_error
  | MsgSleepingInSearch nat
  | MsgSleepInterrupted ctx_error
  | MsgSearchingNextPage nat
  | MsgSkippingArchivedDisabledForked string
  | MsgSkippingRepository string bool
  | MsgCheckingRepository string
  | MsgErrorSearchingRepository string
  | MsgSearchedRepository string
  | MsgStatusAndTotal
  | MsgErrorDownloading
  | MsgErrorReading
  | MsgErrorClosing
  | MsgErrorParsing
  | MsgParsed string
  | MsgFoundPackage string string string
  | MsgPackageNotFound string string
  | MsgSleepingInSearchInRepositories nat

record io =
  calls :: "call list"
  stdout :: "message list"

definition io0 :: io where
  "io0 = \<lparr>calls = [], stdout = []\<rparr>"

definition now :: "io \<Rightarrow> nat" where
  "now t = length (calls t)"

definition moment :: "io \<Rightarrow> nat" where
  "moment t = length (calls t) + length (stdout t)"

definition do_call :: "call \<Rightarrow> io \<Rightarrow> io" where
  "do_call c t = t\<lparr>calls := calls t @ [c]\<rparr>"

definition println :: "message \<Rightarrow> io \<Rightarrow> io" where
  "println m t = t\<lparr>stdout := stdout t @ [m]\<rparr>"

subsection \<open>\<^verbatim>\<open>strconv.Atoi\<close> and \<^verbatim>\<open>strconv.Itoa\<close>\<close>

text \<open>
  The two standard-library conversions the cache rows go through, for a 64-bit
  \<^verbatim>\<open>int\<close>: \<^verbatim>\<open>Atoi\<close> takes an optional sign and at least one decimal digit and fails on
  anything else, and on a value outside the range of \<^verbatim>\<open>int\<close>. A digit is a byte \<^verbatim>\<open>ch\<close>
  for which \<^verbatim>\<open>ch - '0'\<close>, computed in a byte, is at most 9.
\<close>

definition digit_val :: "char \<Rightarrow> nat option" where
  "digit_val c =
     (let ch = (of_char c + 256 - of_char CHR ''0'') mod 256 in
      if 9 < ch then None else Some ch)"

fun digits_val :: "nat \<Rightarrow> string \<Rightarrow> nat option" where
  "digits_val n [] = Some n"
| "digits_val n (c # cs) =
     (case digit_val c of
        None \<Rightarrow> None
      | Some d \<Rightarrow> digits_val (n * 10 + d) cs)"

definition Atoi :: "string \<Rightarrow> int option" where
  "Atoi s =
     (case s of
        [] \<Rightarrow> None
      | c # cs \<Rightarrow>
          (let ds = (if c = CHR ''-'' \<or> c = CHR ''+'' then cs else s) in
           if ds = [] then None
           else case digits_val 0 ds of
                  None \<Rightarrow> None
                | Some n \<Rightarrow>
                    (let v = (if c = CHR ''-'' then - int n else int n) in
                     if v < - (2 ^ 63) \<or> 2 ^ 63 - 1 < v then None else Some v)))"

definition digit_char :: "nat \<Rightarrow> char" where
  "digit_char d = ''0123456789'' ! d"

function digits_of :: "nat \<Rightarrow> string" where
  "digits_of n = (if n < 10 then [digit_char n] else digits_of (n div 10) @ [digit_char (n mod 10)])"
  by pat_completeness auto
termination
  by (relation "measure id") auto

declare digits_of.simps [simp del]

definition Itoa :: "int \<Rightarrow> string" where
  "Itoa i = (if i < 0 then CHR ''-'' # digits_of (nat (- i)) else digits_of (nat i))"

subsection \<open>Loading the cache (\<^verbatim>\<open>run\<close>, lines 80 to 105)\<close>

text \<open>
  The cache file as the CSV reader sees it: a list of rows, each a list of fields
  (the byte-level encoding is the library's business). \<^verbatim>\<open>os.OpenFile\<close> is called with
  \<^verbatim>\<open>O_RDWR|O_CREATE\<close>, so a missing file is created empty. \<^verbatim>\<open>ReadAll\<close> of a reader with
  \<^verbatim>\<open>FieldsPerRecord = 0\<close> takes the field count of the first row and refuses a row
  with another one.
\<close>

datatype cache_file = Missing | Unopenable | Rows "string list list"

datatype error =
    ErrMissingFlags
  | ErrCreatingCacheDirectory
  | ErrOpeningFile
  | ErrReadingFile
  | ErrInvalidStarCount
  | ErrSearchingRepositories
  | ErrContext ctx_error
  | ErrSearching error
  | ErrTruncatingFile
  | ErrSeekingFile
  | ErrWritingFile
  | PanicIndexOutOfRange

definition OpenFile :: "cache_file \<Rightarrow> error + string list list" where
  "OpenFile f =
     (case f of
        Missing \<Rightarrow> Inr []
      | Unopenable \<Rightarrow> Inl ErrOpeningFile
      | Rows rs \<Rightarrow> Inr rs)"

definition csv_ReadAll :: "string list list \<Rightarrow> error + string list list" where
  "csv_ReadAll rs =
     (case rs of
        [] \<Rightarrow> Inr []
      | r # _ \<Rightarrow> if list_all (\<lambda>x. length x = length r) rs then Inr rs else Inl ErrReadingFile)"

text \<open>
  The loop over the records. \<^verbatim>\<open>record[2]\<close> is read first: on a row of fewer than
  three fields the Go runtime panics, which is the result \<open>PanicIndexOutOfRange\<close>.
\<close>

fun load_records :: "string list list \<Rightarrow> (string \<rightharpoonup> repoResult) \<Rightarrow> error + (string \<rightharpoonup> repoResult)" where
  "load_records [] results = Inr results"
| "load_records (record # records) results =
     (if length record \<le> 2 then Inl PanicIndexOutOfRange
      else case Atoi (record ! 2) of
             None \<Rightarrow> Inl ErrInvalidStarCount
           | Some n \<Rightarrow>
               load_records records
                 (results(record ! 0 \<mapsto> \<lparr>name = record ! 0, used = (record ! 1 = ''true''), stars = n\<rparr>)))"

definition load_cache :: "cache_file \<Rightarrow> error + (string \<rightharpoonup> repoResult)" where
  "load_cache f =
     (case OpenFile f of
        Inl e \<Rightarrow> Inl e
      | Inr content \<Rightarrow>
          (case csv_ReadAll content of
             Inl e \<Rightarrow> Inl e
           | Inr records \<Rightarrow> load_records records Map.empty))"

subsection \<open>\<^verbatim>\<open>sleepWithContext\<close>\<close>

text \<open>
  The sleep is one call. It returns \<^verbatim>\<open>ctx.Err()\<close> when the context is done by the end
  of it, and \<^verbatim>\<open>nil\<close> otherwise.
\<close>

definition sleepWithContext :: "github \<Rightarrow> nat \<Rightarrow> io \<Rightarrow> ctx_error option \<times> io" where
  "sleepWithContext g d t =
     (let t' = do_call (CallSleep d) t in (ctx_Err (ctx g) (moment t'), t'))"

subsection \<open>\<^verbatim>\<open>searchInRepositories\<close>\<close>

text \<open>
  Lines 350 to 357, the loop over \<^verbatim>\<open>f.Require\<close>: the first entry with the package's path
  and no \<^verbatim>\<open>// indirect\<close> mark sets \<^verbatim>\<open>used\<close> and leaves this loop.
\<close>

fun check_requires :: "searchResult \<Rightarrow> repository \<Rightarrow> require list \<Rightarrow> bool \<Rightarrow> io \<Rightarrow> bool \<times> io" where
  "check_requires s repo [] u t = (u, t)"
| "check_requires s repo (r # rs) u t =
     (if Mod_Path r = packageName s \<and> \<not> Indirect r
      then (True, println (MsgFoundPackage (packageName s) (Mod_Version r) (GetFullName repo)) t)
      else check_requires s repo rs u t)"

text \<open>
  Lines 321 to 359, the loop over \<^verbatim>\<open>files.CodeResults\<close>: download, read, close, parse,
  then the loop above. A failure of any of the four prints a line and goes on to the
  next file. The \<^verbatim>\<open>break\<close> of the inner loop does not leave this one.
\<close>

fun check_files :: "github \<Rightarrow> searchResult \<Rightarrow> repository \<Rightarrow> codeResult list \<Rightarrow> bool \<Rightarrow> io \<Rightarrow> bool \<times> io" where
  "check_files g s repo [] u t = (u, t)"
| "check_files g s repo (f # fs) u t =
     (let t1 = do_call (CallDownloadContents (GetOwnerLogin repo) (GetName repo) (GetPath f)) t in
      case DownloadContents g (now t) (GetOwnerLogin repo) (GetName repo) (GetPath f) of
        DownloadError \<Rightarrow> check_files g s repo fs u (println MsgErrorDownloading t1)
      | ReadError \<Rightarrow> check_files g s repo fs u (println MsgErrorReading t1)
      | CloseError \<Rightarrow> check_files g s repo fs u (println MsgErrorClosing t1)
      | Body bb \<Rightarrow>
          (case modfile_Parse g bb of
             None \<Rightarrow> check_files g s repo fs u (println MsgErrorParsing t1)
           | Some reqs \<Rightarrow>
               (case check_requires s repo reqs u (println (MsgParsed (GetHTMLURL f)) t1) of
                  (u', t2) \<Rightarrow> check_files g s repo fs u' t2)))"

text \<open>
  Lines 283 to 370, the \<^verbatim>\<open>default\<close> branch for one repository: skip it when it is
  archived, disabled or a fork, skip it when the cache has it, skip it when the code
  search fails; otherwise inspect the files, store the result and sleep.
\<close>

definition code_query :: "searchResult \<Rightarrow> repository \<Rightarrow> string" where
  "code_query s repo = packageName s @ '' repo:'' @ GetFullName repo @ '' filename:go.mod''"

definition check_repository ::
  "github \<Rightarrow> searchResult \<Rightarrow> repository \<Rightarrow> (string \<rightharpoonup> repoResult) \<Rightarrow> io \<Rightarrow> (string \<rightharpoonup> repoResult) \<times> io" where
  "check_repository g s repo results t =
     (if GetArchived repo \<or> GetDisabled repo \<or> GetFork repo
      then (results, println (MsgSkippingArchivedDisabledForked (GetFullName repo)) t)
      else case cache s (GetFullName repo) of
        Some cached \<Rightarrow> (results, println (MsgSkippingRepository (GetFullName repo) (used cached)) t)
      | None \<Rightarrow>
          (let t1 = println (MsgCheckingRepository (GetFullName repo)) t;
               t2 = do_call (CallSearchCode (code_query s repo)) t1 in
           case Search_Code g (now t1) (code_query s repo) of
             None \<Rightarrow> (results, println (MsgErrorSearchingRepository (GetFullName repo)) t2)
           | Some files \<Rightarrow>
               (case check_files g s repo files False
                       (println MsgStatusAndTotal (println (MsgSearchedRepository (GetFullName repo)) t2)) of
                  (u, t3) \<Rightarrow>
                    (let t4 = (if \<not> u then println (MsgPackageNotFound (packageName s) (GetFullName repo)) t3 else t3);
                         repoSearchResult = \<lparr>name = GetFullName repo, used = u, stars = GetStargazersCount repo\<rparr>;
                         results' = results(GetFullName repo \<mapsto> repoSearchResult);
                         t5 = println (MsgSleepingInSearchInRepositories (searchDelay s)) t4 in
                     case sleepWithContext g (searchDelay s) t5 of
                       (None, t6) \<Rightarrow> (results', t6)
                     | (Some e, t6) \<Rightarrow> (results', println (MsgSleepInterrupted e) t6)))))"

text \<open>
  Lines 273 to 282 and 374, the loop over \<^verbatim>\<open>repos.Repositories\<close>. The \<^verbatim>\<open>select\<close> takes
  the \<^verbatim>\<open>ctx.Done()\<close> case whenever the context is done, and \<^verbatim>\<open>default\<close> only otherwise.
\<close>

fun searchInRepositories_loop ::
  "github \<Rightarrow> searchResult \<Rightarrow> repository list \<Rightarrow> (string \<rightharpoonup> repoResult) \<Rightarrow> io
     \<Rightarrow> (string \<rightharpoonup> repoResult) \<times> ctx_error option \<times> io" where
  "searchInRepositories_loop g s [] results t = (results, None, t)"
| "searchInRepositories_loop g s (repo # repos) results t =
     (case ctx_Err (ctx g) (moment t) of
        Some e \<Rightarrow>
          (if e = Canceled then (results, None, println MsgContextCanceled t)
           else (results, Some e, t))
      | None \<Rightarrow>
          (case check_repository g s repo results t of
             (results', t') \<Rightarrow> searchInRepositories_loop g s repos results' t'))"

definition searchInRepositories ::
  "github \<Rightarrow> searchResult \<Rightarrow> repository list \<Rightarrow> io \<Rightarrow> (string \<rightharpoonup> repoResult) \<times> ctx_error option \<times> io" where
  "searchInRepositories g s repos t = searchInRepositories_loop g s repos Map.empty t"

subsection \<open>\<^verbatim>\<open>range\<close> over a map, \<^verbatim>\<open>sort.Slice\<close>\<close>

text \<open>
  What the Go runtime and library leave open: the order in which \<^verbatim>\<open>range\<close> visits the
  keys of a map, and \<^verbatim>\<open>sort.Slice\<close>, of which the documentation promises a sorted
  rearrangement and no stability. Both are parameters. \<open>range_order_ok\<close> says that
  the order visits every key of the map once, \<open>sort_Slice_ok\<close> that the result on
  one input is a sorted rearrangement of it.
\<close>

record runtime =
  range_order :: "(string \<rightharpoonup> repoResult) \<Rightarrow> string list"
  sort_Slice :: "(repoResult \<Rightarrow> repoResult \<Rightarrow> bool) \<Rightarrow> repoResult list \<Rightarrow> repoResult list"

definition range_order_ok :: "runtime \<Rightarrow> (string \<rightharpoonup> repoResult) \<Rightarrow> bool" where
  "range_order_ok rt m \<longleftrightarrow> distinct (range_order rt m) \<and> set (range_order rt m) = dom m"

definition sort_Slice_ok :: "runtime \<Rightarrow> (repoResult \<Rightarrow> repoResult \<Rightarrow> bool) \<Rightarrow> repoResult list \<Rightarrow> bool" where
  "sort_Slice_ok rt lt xs \<longleftrightarrow>
     mset (sort_Slice rt lt xs) = mset xs \<and>
     sorted_wrt (\<lambda>a b. \<not> lt b a) (sort_Slice rt lt xs)"

text \<open>
  \<open>range_map ks m body\<close> is \<^verbatim>\<open>for k, v := range m { body }\<close> when the keys are visited
  in the order \<open>ks\<close>.
\<close>

definition range_map :: "'k list \<Rightarrow> ('k \<rightharpoonup> 'v) \<Rightarrow> ('k \<Rightarrow> 'v \<Rightarrow> 'a \<Rightarrow> 'a) \<Rightarrow> 'a \<Rightarrow> 'a" where
  "range_map ks m body = fold (\<lambda>k acc. case m k of None \<Rightarrow> acc | Some v \<Rightarrow> body k v acc) ks"

text \<open>Lines 240 to 242 of \<^verbatim>\<open>Search\<close>: \<^verbatim>\<open>results[repo] = found\<close>.\<close>

definition update_results ::
  "string list \<Rightarrow> (string \<rightharpoonup> repoResult) \<Rightarrow> (string \<rightharpoonup> repoResult) \<Rightarrow> (string \<rightharpoonup> repoResult)" where
  "update_results ks repoSearchResults results =
     range_map ks repoSearchResults (\<lambda>repo found acc. acc(repo \<mapsto> found)) results"

text \<open>Lines 136 to 140 of \<^verbatim>\<open>run\<close>: \<^verbatim>\<open>if _, ok := results[repo]; !ok { results[repo] = repoResult }\<close>.\<close>

definition merge_results ::
  "string list \<Rightarrow> (string \<rightharpoonup> repoResult) \<Rightarrow> (string \<rightharpoonup> repoResult) \<Rightarrow> (string \<rightharpoonup> repoResult)" where
  "merge_results ks newResults results =
     range_map ks newResults
       (\<lambda>repo r acc. case acc repo of None \<Rightarrow> acc(repo \<mapsto> r) | Some _ \<Rightarrow> acc) results"

text \<open>\<^verbatim>\<open>lo.MapToSlice(results, func(k, v) repoResult { return v })\<close>, visiting the keys as \<open>ks\<close>.\<close>

definition MapToSlice :: "string list \<Rightarrow> (string \<rightharpoonup> repoResult) \<Rightarrow> repoResult list" where
  "MapToSlice ks m = List.map_filter m ks"

subsection \<open>\<^verbatim>\<open>Search\<close>\<close>

text \<open>
  The loop of lines 215 to 256, with \<^verbatim>\<open>opts.Page\<close> and \<^verbatim>\<open>results\<close> as arguments. It has no
  bound, so it is a partial function: \<open>None\<close> is a run that never returns. The
  \<^verbatim>\<open>continue\<close> of line 236 and the \<^verbatim>\<open>break\<close> of line 245 both lead to the next iteration
  of the \<^verbatim>\<open>for\<close>: a \<^verbatim>\<open>break\<close> inside a \<^verbatim>\<open>select\<close> leaves the \<^verbatim>\<open>select\<close> only. Of the search
  options only \<^verbatim>\<open>Page\<close> changes; \<^verbatim>\<open>Sort\<close>, \<^verbatim>\<open>Order\<close> and \<^verbatim>\<open>PerPage\<close> are part of the request that
  \<open>Search_Repositories\<close> answers.
\<close>

partial_function (option) Search_loop ::
  "runtime \<Rightarrow> github \<Rightarrow> searchResult \<Rightarrow> string \<Rightarrow> nat \<Rightarrow> (string \<rightharpoonup> repoResult) \<Rightarrow> io
     \<Rightarrow> ((string \<rightharpoonup> repoResult) \<times> error option \<times> io) option" where
  "Search_loop rt g s query page results t =
     (case ctx_Err (ctx g) (moment t) of
        Some e \<Rightarrow>
          (if e = Canceled then Some (results, None, println MsgContextCanceled t)
           else Some (results, Some (ErrContext e), t))
      | None \<Rightarrow>
          (case Search_Repositories g (now t) query page of
             None \<Rightarrow> Some (results, Some ErrSearchingRepositories, do_call (CallSearchRepositories query page) t)
           | Some (repos, NextPage) \<Rightarrow>
               (case searchInRepositories g s repos (do_call (CallSearchRepositories query page) t) of
                  (found, Some err, t1) \<Rightarrow>
                    Search_loop rt g s query page results (println (MsgErrorSearchingTheRepositories err) t1)
                | (found, None, t1) \<Rightarrow>
                    if NextPage = 0
                    then Search_loop rt g s query page (update_results (range_order rt found) found results) t1
                    else
                      (case sleepWithContext g (paginationDelay s)
                              (println (MsgSleepingInSearch (paginationDelay s)) t1) of
                         (None, t2) \<Rightarrow>
                           Search_loop rt g s query NextPage (update_results (range_order rt found) found results)
                             (println (MsgSearchingNextPage NextPage) t2)
                       | (Some e, t2) \<Rightarrow>
                           Search_loop rt g s query NextPage (update_results (range_order rt found) found results)
                             (println (MsgSearchingNextPage NextPage) (println (MsgSleepInterrupted e) t2))))))"

definition Search ::
  "runtime \<Rightarrow> github \<Rightarrow> searchResult \<Rightarrow> string \<Rightarrow> nat \<Rightarrow> io
     \<Rightarrow> ((string \<rightharpoonup> repoResult) \<times> error option \<times> io) option" where
  "Search rt g s query page t = Search_loop rt g s query page Map.empty t"

subsection \<open>\<^verbatim>\<open>run\<close>\<close>

text \<open>The \<^verbatim>\<open>less\<close> function of line 149 and the row of line 172.\<close>

definition more_stars :: "repoResult \<Rightarrow> repoResult \<Rightarrow> bool" where
  "more_stars a b \<longleftrightarrow> stars a > stars b"

definition csv_row :: "repoResult \<Rightarrow> string list" where
  "csv_row r = [name r, if used r then ''true'' else ''false'', Itoa (stars r)]"

text \<open>Lines 143 to 150 and 167 to 176: the rows written for the merged map.\<close>

definition sorted_rows :: "runtime \<Rightarrow> (string \<rightharpoonup> repoResult) \<Rightarrow> string list list" where
  "sorted_rows rt results =
     map csv_row (sort_Slice rt more_stars (MapToSlice (range_order rt results) results))"

definition newSearchResult :: "string \<Rightarrow> (string \<rightharpoonup> repoResult) \<Rightarrow> searchResult" where
  "newSearchResult pkg results =
     \<lparr>cache = results, packageName = pkg, paginationDelay = 7, searchDelay = 7\<rparr>"

text \<open>
  The machine \<^verbatim>\<open>run\<close> starts on: the \<^verbatim>\<open>cache\<close> directory, the cache file of the package,
  and whether truncating, seeking and writing the open file fail (a failed write
  leaves the truncated file).
\<close>

datatype cache_dir = DirPresent | DirMissing | DirUncreatable

record os =
  dir :: cache_dir
  csv :: cache_file
  Truncate_fails :: bool
  Seek_fails :: bool
  Write_fails :: bool

definition opened :: "cache_file \<Rightarrow> cache_file" where
  "opened f = (case f of Missing \<Rightarrow> Rows [] | _ \<Rightarrow> f)"

text \<open>
  \<^verbatim>\<open>run\<close> returns its error, and leaves the cache file and the record of its calls. A
  runtime panic is the error \<open>PanicIndexOutOfRange\<close>. \<open>None\<close> is a run in which \<^verbatim>\<open>Search\<close>
  never returns. \<open>pkg\<close> and \<open>token\<close> are the two flags.
\<close>

definition run :: "runtime \<Rightarrow> github \<Rightarrow> os \<Rightarrow> string \<Rightarrow> string \<Rightarrow> (error option \<times> cache_file \<times> io) option" where
  "run rt g m pkg token =
     (if pkg = [] \<or> token = [] then Some (Some ErrMissingFlags, csv m, io0)
      else if dir m = DirUncreatable then Some (Some ErrCreatingCacheDirectory, csv m, io0)
      else case load_cache (csv m) of
        Inl e \<Rightarrow> Some (Some e, opened (csv m), io0)
      | Inr results \<Rightarrow>
          (case Search rt g (newSearchResult pkg results) ''language:go stars:>1000'' 0 io0 of
             None \<Rightarrow> None
           | Some (newResults, Some err, t) \<Rightarrow> Some (Some (ErrSearching err), opened (csv m), t)
           | Some (newResults, None, t) \<Rightarrow>
               (let merged = merge_results (range_order rt newResults) newResults results in
                if Truncate_fails m then Some (Some ErrTruncatingFile, opened (csv m), t)
                else if Seek_fails m then Some (Some ErrSeekingFile, Rows [], t)
                else if Write_fails m then Some (Some ErrWritingFile, Rows [], t)
                else Some (None, Rows (sorted_rows rt merged), t))))"

section \<open>Notions used by the properties\<close>

text \<open>An entry of a manifest that requires the package directly.\<close>

definition direct_require :: "searchResult \<Rightarrow> require \<Rightarrow> bool" where
  "direct_require s r \<longleftrightarrow> Mod_Path r = packageName s \<and> \<not> Indirect r"

text \<open>
  The manifest the program gets out of a file of the code search when the download
  is its call number \<open>n\<close>: \<open>None\<close> when the download, the read, the close or the parse
  fails.
\<close>

definition manifest :: "github \<Rightarrow> nat \<Rightarrow> repository \<Rightarrow> codeResult \<Rightarrow> require list option" where
  "manifest g n repo f =
     (case DownloadContents g n (GetOwnerLogin repo) (GetName repo) (GetPath f) of
        Body bb \<Rightarrow> modfile_Parse g bb
      | _ \<Rightarrow> None)"

text \<open>
  The results and the record of calls after the repositories \<open>repos\<close> have all been
  gone through, one after the other, with no cancellation.
\<close>

definition checked ::
  "github \<Rightarrow> searchResult \<Rightarrow> repository list \<Rightarrow> (string \<rightharpoonup> repoResult) \<times> io \<Rightarrow> (string \<rightharpoonup> repoResult) \<times> io" where
  "checked g s repos = fold (\<lambda>repo (results, t). check_repository g s repo results t) repos"

text \<open>
  What going through repository \<open>r\<close> stores when it starts at \<open>t\<close>, read off the answers of
  the client: nothing for a repository that is skipped or whose code search is
  refused; otherwise its name and stars, with \<open>used\<close> true exactly when the download of
  some file, at its turn, gave a manifest with a direct require.
\<close>

definition inspection :: "github \<Rightarrow> searchResult \<Rightarrow> repository \<Rightarrow> io \<Rightarrow> repoResult option" where
  "inspection g s r t =
     (if GetArchived r \<or> GetDisabled r \<or> GetFork r then None
      else if cache s (GetFullName r) \<noteq> None then None
      else case Search_Code g (now t) (code_query s r) of
             None \<Rightarrow> None
           | Some files \<Rightarrow>
               Some \<lparr>name = GetFullName r,
                     used = (\<exists>j < length files. \<exists>reqs.
                               manifest g (Suc (now t) + j) r (files ! j) = Some reqs
                               \<and> (\<exists>q \<in> set reqs. direct_require s q)),
                     stars = GetStargazersCount r\<rparr>)"

text \<open>A map of results is keyed when every entry sits under its own name.\<close>

definition keyed :: "(string \<rightharpoonup> repoResult) \<Rightarrow> bool" where
  "keyed m \<longleftrightarrow> (\<forall>k r. m k = Some r \<longrightarrow> name r = k)"

text \<open>Two maps agree when they give the same value to every key they share.\<close>

definition agree :: "('k \<rightharpoonup> 'v) \<Rightarrow> ('k \<rightharpoonup> 'v) \<Rightarrow> bool" where
  "agree m m' \<longleftrightarrow> (\<forall>k \<in> dom m \<inter> dom m'. m k = m' k)"

text \<open>The accumulated results of \<^verbatim>\<open>Search\<close> after the pages' maps have been merged in turn.\<close>

definition merge_pages ::
  "runtime \<Rightarrow> (string \<rightharpoonup> repoResult) \<Rightarrow> (string \<rightharpoonup> repoResult) list \<Rightarrow> (string \<rightharpoonup> repoResult)" where
  "merge_pages rt = foldl (\<lambda>results found. update_results (range_order rt found) found results)"

text \<open>
  The insertion sort that \<^verbatim>\<open>sort.Slice\<close> runs on a slice of at most twelve elements:
  each element moves left while it is less than its left neighbour. \<open>sink\<close> works on
  the reversed prefix.
\<close>

fun sink :: "('a \<Rightarrow> 'a \<Rightarrow> bool) \<Rightarrow> 'a \<Rightarrow> 'a list \<Rightarrow> 'a list" where
  "sink lt x [] = [x]"
| "sink lt x (y # ys) = (if lt x y then y # sink lt x ys else x # y # ys)"

definition insertionSort :: "('a \<Rightarrow> 'a \<Rightarrow> bool) \<Rightarrow> 'a list \<Rightarrow> 'a list" where
  "insertionSort lt xs = rev (fold (sink lt) xs [])"

subsection \<open>A small world to run the program on\<close>

text \<open>
  Two repositories. The first has two manifests: \<^verbatim>\<open>go.mod\<close> requires \<^verbatim>\<open>acme/widget\<close>
  directly, \<^verbatim>\<open>tools/go.mod\<close> only indirectly. The code search finds only the second
  manifest for any other repository. Every repository search answers with both
  repositories and the next page \<open>next\<close>; the context is \<open>c\<close>.
\<close>

definition repo1 :: repository where
  "repo1 = \<lparr>GetFullName = ''org/repo1'', GetOwnerLogin = ''org'', GetName = ''repo1'',
            GetArchived = False, GetDisabled = False, GetFork = False, GetStargazersCount = 5000\<rparr>"

definition repo2 :: repository where
  "repo2 = \<lparr>GetFullName = ''org/repo2'', GetOwnerLogin = ''org'', GetName = ''repo2'',
            GetArchived = False, GetDisabled = False, GetFork = False, GetStargazersCount = 3000\<rparr>"

text \<open>An archived repository, which the scan skips.\<close>

definition repo0 :: repository where
  "repo0 = \<lparr>GetFullName = ''org/repo0'', GetOwnerLogin = ''org'', GetName = ''repo0'',
            GetArchived = True, GetDisabled = False, GetFork = False, GetStargazersCount = 9000\<rparr>"

definition root_mod :: codeResult where
  "root_mod = \<lparr>GetPath = ''go.mod'', GetHTMLURL = ''go.mod''\<rparr>"

definition tools_mod :: codeResult where
  "tools_mod = \<lparr>GetPath = ''tools/go.mod'', GetHTMLURL = ''tools/go.mod''\<rparr>"

definition widget_direct :: require where
  "widget_direct = \<lparr>Mod_Path = ''acme/widget'', Mod_Version = ''v1.2.0'', Indirect = False\<rparr>"

definition widget_indirect :: require where
  "widget_indirect = \<lparr>Mod_Path = ''acme/widget'', Mod_Version = ''v1.2.0'', Indirect = True\<rparr>"

definition demo_github :: "go_context \<Rightarrow> nat \<Rightarrow> github" where
  "demo_github c next =
     \<lparr>Search_Repositories = (\<lambda>n q p. Some ([repo1, repo2], next)),
      Search_Code = (\<lambda>n q. if q = ''acme/widget repo:org/repo1 filename:go.mod''
                            then Some [root_mod, tools_mod] else Some [tools_mod]),
      DownloadContents = (\<lambda>n owner nm path. if path = ''go.mod'' then Body ''direct'' else Body ''indirect''),
      modfile_Parse = (\<lambda>bb. if bb = ''direct'' then Some [widget_direct]
                             else if bb = ''indirect'' then Some [widget_indirect] else None),
      ctx = c\<rparr>"

text \<open>The same client, refusing every download from call \<open>n\<close> on, as requests on a done context are.\<close>

definition refusing_github :: "nat \<Rightarrow> go_context \<Rightarrow> nat \<Rightarrow> github" where
  "refusing_github n c next =
     (demo_github c next)
       \<lparr>DownloadContents :=
          (\<lambda>k owner nm path. if n \<le> k then DownloadError
                              else DownloadContents (demo_github c next) k owner nm path)\<rparr>"

definition never_done :: go_context where
  "never_done = \<lparr>done_after = None, cause = Canceled\<rparr>"

definition done_from :: "nat \<Rightarrow> ctx_error \<Rightarrow> go_context" where
  "done_from n e = \<lparr>done_after = Some n, cause = e\<rparr>"

definition widget_search :: "(string \<rightharpoonup> repoResult) \<Rightarrow> searchResult" where
  "widget_search results = newSearchResult ''acme/widget'' results"

definition visiting :: "string list \<Rightarrow> runtime" where
  "visiting ks = \<lparr>range_order = (\<lambda>m. filter (\<lambda>k. m k \<noteq> None) ks), sort_Slice = insertionSort\<rparr>"

definition result1 :: repoResult where
  "result1 = \<lparr>name = ''org/repo1'', used = True, stars = 5000\<rparr>"

definition result2 :: repoResult where
  "result2 = \<lparr>name = ''org/repo2'', used = False, stars = 5000\<rparr>"

definition tied_results :: "string \<rightharpoonup> repoResult" where
  "tied_results = [''org/repo1'' \<mapsto> result1, ''org/repo2'' \<mapsto> result2]"

definition page1 :: "string \<rightharpoonup> repoResult" where
  "page1 = [''org/repo1'' \<mapsto> result1]"

definition page1_later :: "string \<rightharpoonup> repoResult" where
  "page1_later = [''org/repo1'' \<mapsto> result1\<lparr>stars := 5001\<rparr>]"

definition page2 :: "string \<rightharpoonup> repoResult" where
  "page2 = [''org/repo2'' \<mapsto> result2]"

definition demo_os :: "string list list \<Rightarrow> os" where
  "demo_os rows = \<lparr>dir = DirPresent, csv = Rows rows, Truncate_fails = False, Seek_fails = False, Write_fails = False\<rparr>"

section \<open>Properties\<close>

subsection \<open>The record of calls\<close>

lemma calls_println [simp]: "calls (println m t) = calls t"
  by (simp add: println_def)

lemma stdout_println [simp]: "stdout (println m t) = stdout t @ [m]"
  by (simp add: println_def)

lemma calls_do_call [simp]: "calls (do_call c t) = calls t @ [c]"
  by (simp add: do_call_def)

lemma stdout_do_call [simp]: "stdout (do_call c t) = stdout t"
  by (simp add: do_call_def)

lemma now_println [simp]: "now (println m t) = now t"
  by (simp add: now_def)

lemma now_do_call [simp]: "now (do_call c t) = Suc (now t)"
  by (simp add: now_def)

lemma moment_println [simp]: "moment (println m t) = Suc (moment t)"
  by (simp add: moment_def)

lemma moment_do_call [simp]: "moment (do_call c t) = Suc (moment t)"
  by (simp add: moment_def)

lemma ctx_Err_mono: "ctx_Err c n = Some e \<Longrightarrow> n \<le> m \<Longrightarrow> ctx_Err c m = Some e"
  by (auto simp: ctx_Err_def split: option.splits if_splits)

subsection \<open>Decimal numbers\<close>

lemma digit_val_digit_char: "d < 10 \<Longrightarrow> digit_val (digit_char d) = Some d"
proof -
  assume "d < 10"
  then have "d = 0 \<or> d = 1 \<or> d = 2 \<or> d = 3 \<or> d = 4 \<or> d = 5 \<or> d = 6 \<or> d = 7 \<or> d = 8 \<or> d = 9"
    by arith
  then show ?thesis
    by (elim disjE) (simp_all add: digit_val_def digit_char_def)
qed

lemma digits_val_append:
  "digits_val n (xs @ ys) = (case digits_val n xs of None \<Rightarrow> None | Some m \<Rightarrow> digits_val m ys)"
  by (induction xs arbitrary: n) (auto split: option.splits)

lemma digits_val_digits_of: "digits_val 0 (digits_of n) = Some n"
proof (induction n rule: digits_of.induct)
  case (1 n)
  show ?case
  proof (cases "n < 10")
    case True
    then show ?thesis
      by (subst digits_of.simps) (simp add: digit_val_digit_char)
  next
    case False
    with 1 have "digits_val 0 (digits_of (n div 10)) = Some (n div 10)" by simp
    with False show ?thesis
      by (subst digits_of.simps) (simp add: digits_val_append digit_val_digit_char)
  qed
qed

lemma digits_of_not_Nil: "digits_of n \<noteq> []"
  by (subst digits_of.simps) simp

lemma hd_digits_of: "hd (digits_of n) \<noteq> CHR ''-'' \<and> hd (digits_of n) \<noteq> CHR ''+''"
proof -
  have "digits_val 0 (digits_of n) = Some n" by (rule digits_val_digits_of)
  moreover obtain c cs where "digits_of n = c # cs"
    using digits_of_not_Nil [of n] by (cases "digits_of n") auto
  ultimately show ?thesis
    by (auto simp: digit_val_def split: option.splits if_splits)
qed

lemma Atoi_Itoa:
  assumes "- (2 ^ 63) \<le> i" and "i < 2 ^ 63"
  shows "Atoi (Itoa i) = Some i"
proof (cases "i < 0")
  case True
  with assms show ?thesis
    by (simp add: Atoi_def Itoa_def digits_of_not_Nil digits_val_digits_of)
next
  case False
  obtain c cs where d: "digits_of (nat i) = c # cs"
    using digits_of_not_Nil [of "nat i"] by (cases "digits_of (nat i)") auto
  with hd_digits_of [of "nat i"] have "c \<noteq> CHR ''-''" "c \<noteq> CHR ''+''" by auto
  with False assms d digits_val_digits_of [of "nat i"] show ?thesis
    by (simp add: Atoi_def Itoa_def)
qed

subsection \<open>Loading\<close>

lemma load_records_no_panic:
  "\<forall>r \<in> set rows. 3 \<le> length r \<Longrightarrow> load_records rows results \<noteq> Inl PanicIndexOutOfRange"
  by (induction rows arbitrary: results) (auto split: option.splits)

lemma load_records_invalid_iff:
  "\<forall>r \<in> set rows. 3 \<le> length r \<Longrightarrow>
   load_records rows results = Inl ErrInvalidStarCount \<longleftrightarrow> (\<exists>r \<in> set rows. Atoi (r ! 2) = None)"
  by (induction rows arbitrary: results) (auto split: option.splits)

lemma csv_ReadAll_cases:
  "csv_ReadAll rows = Inr rows \<or> csv_ReadAll rows = Inl ErrReadingFile"
  by (simp add: csv_ReadAll_def split: list.splits)

lemma csv_ReadAll_accepts:
  "csv_ReadAll rows = Inr rows \<longleftrightarrow> (\<forall>r \<in> set rows. length r = length (hd rows))"
  by (cases rows) (auto simp: csv_ReadAll_def list_all_iff)

subsection \<open>One repository\<close>

lemma check_requires_used:
  "fst (check_requires s repo reqs u t) \<longleftrightarrow> u \<or> (\<exists>r \<in> set reqs. direct_require s r)"
  by (induction reqs) (auto simp: direct_require_def)

lemma check_requires_calls [simp]:
  "calls (snd (check_requires s repo reqs u t)) = calls t"
  by (induction reqs) auto

lemma check_requires_now [simp]:
  "now (snd (check_requires s repo reqs u t)) = now t"
  by (simp add: now_def)

lemma check_requires_first_match:
  "direct_require s r \<Longrightarrow>
     check_requires s repo (pre @ r # post) u t = check_requires s repo (pre @ [r]) u t"
  by (induction pre) (auto simp: direct_require_def)

lemma check_files_calls:
  "calls (snd (check_files g s repo files u t)) =
     calls t @ map (\<lambda>f. CallDownloadContents (GetOwnerLogin repo) (GetName repo) (GetPath f)) files"
proof (induction files arbitrary: u t)
  case Nil
  show ?case by simp
next
  case (Cons f fs)
  show ?case
    by (simp add: Cons.IH Let_def split: download.split option.split prod.split)
       (metis check_requires_calls calls_println calls_do_call snd_conv)
qed

lemma check_files_used:
  "fst (check_files g s repo files u t) \<longleftrightarrow>
     u \<or> (\<exists>i < length files. \<exists>reqs. manifest g (now t + i) repo (files ! i) = Some reqs
            \<and> (\<exists>r \<in> set reqs. direct_require s r))"
proof (induction files arbitrary: u t)
  case Nil
  show ?case by simp
next
  case (Cons f fs)
  have ex_Suc: "\<And>P. (\<exists>i < Suc (length fs). P i) \<longleftrightarrow> P 0 \<or> (\<exists>i < length fs. P (Suc i))"
    by (metis less_Suc_eq_0_disj)
  show ?case
  proof (cases "manifest g (now t) repo f")
    case None
    then show ?thesis
      by (auto simp: Cons.IH Let_def manifest_def ex_Suc split: download.splits option.splits)
  next
    case (Some reqs)
    let ?t1 = "println (MsgParsed (GetHTMLURL f))
                 (do_call (CallDownloadContents (GetOwnerLogin repo) (GetName repo) (GetPath f)) t)"
    obtain u' t' where c: "check_requires s repo reqs u ?t1 = (u', t')"
      by (cases "check_requires s repo reqs u ?t1")
    have u': "u' \<longleftrightarrow> u \<or> (\<exists>r \<in> set reqs. direct_require s r)"
      using check_requires_used [of s repo reqs u ?t1] c by simp
    have t': "now t' = Suc (now t)"
      using check_requires_now [of s repo reqs u ?t1] c by simp
    from Some c u' t' show ?thesis
      by (auto simp: Cons.IH Let_def manifest_def ex_Suc split: download.splits option.splits)
  qed
qed

lemma check_repository_cached:
  assumes "cache s (GetFullName repo) = Some v"
  shows "check_repository g s repo results t =
           (results, println (if GetArchived repo \<or> GetDisabled repo \<or> GetFork repo
                              then MsgSkippingArchivedDisabledForked (GetFullName repo)
                              else MsgSkippingRepository (GetFullName repo) (used v)) t)"
  using assms by (simp add: check_repository_def)

lemma check_repository_entry:
  "fst (check_repository g s repo results t) k = results k \<or>
   (k = GetFullName repo \<and> cache s k = None \<and> \<not> GetArchived repo \<and> \<not> GetDisabled repo \<and> \<not> GetFork repo
      \<and> (\<exists>u. fst (check_repository g s repo results t) k =
                Some \<lparr>name = GetFullName repo, used = u, stars = GetStargazersCount repo\<rparr>))"
  by (auto simp: check_repository_def Let_def sleepWithContext_def split: option.splits prod.splits)

lemma check_repository_result:
  assumes "\<not> GetArchived repo" "\<not> GetDisabled repo" "\<not> GetFork repo"
    and "cache s (GetFullName repo) = None"
    and "Search_Code g (now t) (code_query s repo) = Some files"
  shows "fst (check_repository g s repo results t) =
           results(GetFullName repo \<mapsto>
             \<lparr>name = GetFullName repo,
              used = fst (check_files g s repo files False
                       (println MsgStatusAndTotal (println (MsgSearchedRepository (GetFullName repo))
                          (do_call (CallSearchCode (code_query s repo)) (println (MsgCheckingRepository (GetFullName repo)) t))))),
              stars = GetStargazersCount repo\<rparr>)"
  using assms
  by (simp add: check_repository_def Let_def sleepWithContext_def split: option.splits prod.splits)

lemma check_repository_inspection:
  "fst (check_repository g s r results t) =
     (case inspection g s r t of None \<Rightarrow> results | Some v \<Rightarrow> results(GetFullName r \<mapsto> v))"
proof (cases "GetArchived r \<or> GetDisabled r \<or> GetFork r")
  case True
  then show ?thesis by (auto simp: check_repository_def inspection_def)
next
  case False
  note live = this
  show ?thesis
  proof (cases "cache s (GetFullName r)")
    case (Some v)
    with live show ?thesis by (simp add: check_repository_def inspection_def)
  next
    case None
    show ?thesis
    proof (cases "Search_Code g (now t) (code_query s r)")
      case None
      with live \<open>cache s (GetFullName r) = None\<close> show ?thesis
        by (simp add: check_repository_def inspection_def Let_def)
    next
      case (Some files)
      from live have l: "\<not> GetArchived r" "\<not> GetDisabled r" "\<not> GetFork r" by auto
      from check_repository_result [OF l \<open>cache s (GetFullName r) = None\<close> Some, of results]
      show ?thesis
        using live \<open>cache s (GetFullName r) = None\<close> Some
        by (simp add: inspection_def check_files_used)
    qed
  qed
qed

subsection \<open>A page of repositories\<close>

lemma checked_Nil [simp]: "checked g s [] st = st"
  by (simp add: checked_def)

lemma checked_Cons [simp]:
  "checked g s (repo # repos) (results, t) = checked g s repos (check_repository g s repo results t)"
  by (simp add: checked_def)

lemma checked_sound:
  "fst (checked g s pre (results, t)) k = Some v \<Longrightarrow>
     results k = Some v \<or>
     (\<exists>i < length pre. GetFullName (pre ! i) = k
        \<and> inspection g s (pre ! i) (snd (checked g s (take i pre) (results, t))) = Some v)"
proof (induction pre arbitrary: results t)
  case Nil
  then show ?case by simp
next
  case (Cons r pre)
  obtain r' t' where c: "check_repository g s r results t = (r', t')"
    by (cases "check_repository g s r results t")
  with Cons.prems have "fst (checked g s pre (r', t')) k = Some v" by simp
  from Cons.IH [OF this] show ?case
  proof
    assume a: "r' k = Some v"
    from check_repository_inspection [of g s r results t] c
    have r': "r' = (case inspection g s r t of None \<Rightarrow> results | Some w \<Rightarrow> results(GetFullName r \<mapsto> w))"
      by simp
    show ?thesis
    proof (cases "results k = Some v")
      case True
      then show ?thesis by simp
    next
      case False
      with a r' have "GetFullName r = k \<and> inspection g s r t = Some v"
        by (auto split: option.splits if_splits)
      then have "GetFullName ((r # pre) ! 0) = k
          \<and> inspection g s ((r # pre) ! 0) (snd (checked g s (take 0 (r # pre)) (results, t))) = Some v"
        by simp
      then show ?thesis by blast
    qed
  next
    assume "\<exists>i < length pre. GetFullName (pre ! i) = k
        \<and> inspection g s (pre ! i) (snd (checked g s (take i pre) (r', t'))) = Some v"
    then obtain i where i: "i < length pre" "GetFullName (pre ! i) = k"
      "inspection g s (pre ! i) (snd (checked g s (take i pre) (r', t'))) = Some v"
      by blast
    with c have "Suc i < length (r # pre) \<and> GetFullName ((r # pre) ! Suc i) = k
        \<and> inspection g s ((r # pre) ! Suc i) (snd (checked g s (take (Suc i) (r # pre)) (results, t))) = Some v"
      by simp
    then show ?thesis by blast
  qed
qed

lemma checked_keeps:
  "results k \<noteq> None \<Longrightarrow> fst (checked g s pre (results, t)) k \<noteq> None"
proof (induction pre arbitrary: results t)
  case Nil
  then show ?case by simp
next
  case (Cons r pre)
  obtain r' t' where c: "check_repository g s r results t = (r', t')"
    by (cases "check_repository g s r results t")
  from check_repository_inspection [of g s r results t] c Cons.prems have "r' k \<noteq> None"
    by (auto split: option.splits)
  then have "fst (checked g s pre (r', t')) k \<noteq> None"
    by (rule Cons.IH [where results = r'])
  with c show ?case by simp
qed

lemma checked_complete:
  "i < length pre \<Longrightarrow>
   inspection g s (pre ! i) (snd (checked g s (take i pre) (results, t))) \<noteq> None \<Longrightarrow>
   fst (checked g s pre (results, t)) (GetFullName (pre ! i)) \<noteq> None"
proof (induction pre arbitrary: results t i)
  case Nil
  then show ?case by simp
next
  case (Cons r pre)
  obtain r' t' where c: "check_repository g s r results t = (r', t')"
    by (cases "check_repository g s r results t")
  show ?case
  proof (cases i)
    case 0
    with Cons.prems have "inspection g s r t \<noteq> None" by simp
    with check_repository_inspection [of g s r results t] c have "r' (GetFullName r) \<noteq> None"
      by (auto split: option.splits)
    then have "fst (checked g s pre (r', t')) (GetFullName r) \<noteq> None"
      by (rule checked_keeps [where results = r'])
    with c 0 show ?thesis by simp
  next
    case (Suc j)
    with Cons.prems c have "j < length pre"
      and "inspection g s (pre ! j) (snd (checked g s (take j pre) (r', t'))) \<noteq> None"
      by simp_all
    from Cons.IH [OF this] c Suc show ?thesis by simp
  qed
qed

lemma loop_keeps_cached:
  "cache s k \<noteq> None \<Longrightarrow> fst (searchInRepositories_loop g s repos results t) k = results k"
proof (induction repos arbitrary: results t)
  case Nil
  show ?case by simp
next
  case (Cons repo repos)
  obtain r' t' where c: "check_repository g s repo results t = (r', t')"
    by (cases "check_repository g s repo results t")
  have "r' k = results k"
    using check_repository_entry [of g s repo results t k] c Cons.prems by auto
  with Cons.IH [OF Cons.prems, of r' t'] c show ?case
    by (simp split: option.split)
qed

lemma loop_append:
  assumes "\<forall>j < length pre. ctx_Err (ctx g) (moment (snd (checked g s (take j pre) (results, t)))) = None"
  shows "searchInRepositories_loop g s (pre @ rest) results t =
           (case checked g s pre (results, t) of (r', t') \<Rightarrow> searchInRepositories_loop g s rest r' t')"
  using assms
proof (induction pre arbitrary: results t)
  case Nil
  show ?case by simp
next
  case (Cons repo pre)
  obtain r' t' where c: "check_repository g s repo results t = (r', t')"
    by (cases "check_repository g s repo results t")
  have 0: "ctx_Err (ctx g) (moment t) = None"
    using Cons.prems by force
  have "\<forall>j < length pre. ctx_Err (ctx g) (moment (snd (checked g s (take j pre) (r', t')))) = None"
  proof (intro allI impI)
    fix j assume "j < length pre"
    then have "Suc j < length (repo # pre)" by simp
    from Cons.prems [rule_format, OF this] c
    show "ctx_Err (ctx g) (moment (snd (checked g s (take j pre) (r', t')))) = None"
      by simp
  qed
  from Cons.IH [OF this] 0 c show ?case by simp
qed

lemma loop_error_ctx:
  "searchInRepositories_loop g s repos results t = (found, Some e, t') \<Longrightarrow>
     ctx_Err (ctx g) (moment t') = Some e \<and> e \<noteq> Canceled"
proof (induction repos arbitrary: results t)
  case Nil
  then show ?case by simp
next
  case (Cons repo repos)
  then show ?case
    by (auto split: option.splits if_splits prod.splits)
qed

lemma loop_no_error:
  "done_after (ctx g) = None \<Longrightarrow> fst (snd (searchInRepositories_loop g s repos results t)) = None"
  by (induction repos arbitrary: results t) (auto simp: ctx_Err_def split: prod.splits)

lemma searchInRepositories_no_error:
  "done_after (ctx g) = None \<Longrightarrow> searchInRepositories g s repos t = (found, err, t') \<Longrightarrow> err = None"
  using loop_no_error [of g s repos Map.empty t] by (simp add: searchInRepositories_def)

subsection \<open>Merging\<close>

lemma range_map_update:
  "range_map ks m (\<lambda>k v acc. acc(k \<mapsto> v)) results = results ++ (m |` set ks)"
proof (induction ks arbitrary: results)
  case Nil
  show ?case by (simp add: range_map_def)
next
  case (Cons k ks)
  have "range_map (k # ks) m (\<lambda>k v acc. acc(k \<mapsto> v)) results =
          range_map ks m (\<lambda>k v acc. acc(k \<mapsto> v)) (case m k of None \<Rightarrow> results | Some v \<Rightarrow> results(k \<mapsto> v))"
    by (simp add: range_map_def)
  also have "\<dots> = (case m k of None \<Rightarrow> results | Some v \<Rightarrow> results(k \<mapsto> v)) ++ (m |` set ks)"
    by (rule Cons.IH)
  also have "\<dots> = results ++ (m |` set (k # ks))"
    by (rule ext) (auto simp: map_add_def restrict_map_def split: option.splits)
  finally show ?case .
qed

lemma update_results_apply:
  "update_results ks found results k =
     (if k \<in> set ks \<and> found k \<noteq> None then found k else results k)"
  unfolding update_results_def range_map_update
  by (auto simp: map_add_def restrict_map_def split: option.splits)

lemma update_results_eq:
  "set ks = dom found \<Longrightarrow> update_results ks found results = results ++ found"
  by (rule ext) (auto simp: update_results_apply map_add_def split: option.splits)

lemma merge_results_apply:
  "merge_results ks newResults results k =
     (case results k of Some v \<Rightarrow> Some v | None \<Rightarrow> if k \<in> set ks then newResults k else None)"
proof (induction ks arbitrary: results)
  case Nil
  show ?case by (simp add: merge_results_def range_map_def split: option.splits)
next
  case (Cons a ks)
  have "merge_results (a # ks) newResults results =
          merge_results ks newResults
            (case newResults a of None \<Rightarrow> results
             | Some r \<Rightarrow> (case results a of None \<Rightarrow> results(a \<mapsto> r) | Some _ \<Rightarrow> results))"
    by (simp add: merge_results_def range_map_def)
  then show ?case
    by (auto simp: Cons.IH split: option.splits)
qed

lemma merge_results_eq:
  "set ks = dom newResults \<Longrightarrow> merge_results ks newResults results = newResults ++ results"
  by (rule ext) (auto simp: merge_results_apply map_add_def split: option.splits)

lemma agree_map_add:
  assumes "agree m m'"
  shows "m ++ m' = m' ++ m"
proof (rule ext)
  fix k
  show "(m ++ m') k = (m' ++ m) k"
  proof (cases "m k")
    case None
    then show ?thesis by (cases "m' k") (simp_all add: map_add_def)
  next
    case (Some a)
    show ?thesis
    proof (cases "m' k")
      case None
      with Some show ?thesis by (simp add: map_add_def)
    next
      case (Some b)
      with \<open>m k = Some a\<close> have "k \<in> dom m \<inter> dom m'" by blast
      with assms have "m k = m' k" unfolding agree_def by blast
      with Some \<open>m k = Some a\<close> show ?thesis by (simp add: map_add_def)
    qed
  qed
qed

lemma merge_pages_snoc:
  "merge_pages rt acc (ms @ [m]) = update_results (range_order rt m) m (merge_pages rt acc ms)"
  by (simp add: merge_pages_def)

lemma merge_pages_none:
  "\<forall>m \<in> set ms. m k = None \<Longrightarrow> merge_pages rt acc ms k = acc k"
  by (induction ms rule: rev_induct) (auto simp: merge_pages_snoc update_results_apply merge_pages_def)

lemma merge_pages_some:
  assumes "\<forall>m \<in> set ms. range_order_ok rt m"
    and "\<forall>m \<in> set ms. \<forall>m' \<in> set ms. agree m m'"
    and "m \<in> set ms" and "m k = Some v"
  shows "merge_pages rt acc ms k = Some v"
  using assms
proof (induction ms rule: rev_induct)
  case Nil
  then show ?case by simp
next
  case (snoc x xs)
  show ?case
  proof (cases "x k")
    case None
    with snoc.prems have "m \<in> set xs" by auto
    with snoc.IH snoc.prems have "merge_pages rt acc xs k = Some v" by auto
    with None show ?thesis by (simp add: merge_pages_snoc update_results_apply)
  next
    case (Some v')
    from snoc.prems have "agree m x" by auto
    then have "m k = x k"
      unfolding agree_def using Some snoc.prems(4) by blast
    with Some snoc.prems(4) have v: "v' = v" by simp
    from snoc.prems(1) have "set (range_order rt x) = dom x"
      by (simp add: range_order_ok_def)
    with Some have "k \<in> set (range_order rt x)" by auto
    with Some v show ?thesis by (simp add: merge_pages_snoc update_results_apply)
  qed
qed

lemma merge_pages_order:
  assumes "\<forall>m \<in> set ms. range_order_ok rt m"
    and "\<forall>m \<in> set ms. \<forall>m' \<in> set ms. agree m m'"
    and "mset ms' = mset ms"
  shows "merge_pages rt acc ms' = merge_pages rt acc ms"
proof (rule ext)
  fix k
  from assms(3) have s: "set ms' = set ms" by (rule mset_eq_setD)
  show "merge_pages rt acc ms' k = merge_pages rt acc ms k"
  proof (cases "\<exists>m \<in> set ms. m k \<noteq> None")
    case True
    then obtain m v where m: "m \<in> set ms" "m k = Some v" by auto
    from assms(1,2) m have "merge_pages rt acc ms k = Some v"
      by (rule merge_pages_some)
    moreover from assms(1,2) m s have "merge_pages rt acc ms' k = Some v"
      by (intro merge_pages_some [where m = m]) simp_all
    ultimately show ?thesis by simp
  next
    case False
    with s show ?thesis by (simp add: merge_pages_none)
  qed
qed

subsection \<open>The rows\<close>

lemma MapToSlice_mset:
  assumes "distinct ks" and "set ks = dom m"
  shows "mset (MapToSlice ks m) = image_mset (\<lambda>k. the (m k)) (mset_set (dom m))"
proof -
  have "set ks \<subseteq> dom m \<Longrightarrow> List.map_filter m ks = map (\<lambda>k. the (m k)) ks" for ks
    by (induction ks) (auto simp: List.map_filter_simps)
  with assms have "MapToSlice ks m = map (\<lambda>k. the (m k)) ks"
    by (simp add: MapToSlice_def)
  moreover from assms have "mset ks = mset_set (dom m)"
    by (metis mset_set_set)
  ultimately show ?thesis by simp
qed

lemma sorted_rows_values:
  assumes "range_order_ok rt m"
    and "sort_Slice_ok rt more_stars (MapToSlice (range_order rt m) m)"
  shows "\<exists>xs. sorted_rows rt m = map csv_row xs
           \<and> mset xs = image_mset (\<lambda>k. the (m k)) (mset_set (dom m))
           \<and> sorted_wrt (\<lambda>a b. stars b \<le> stars a) xs"
proof -
  let ?xs = "sort_Slice rt more_stars (MapToSlice (range_order rt m) m)"
  have 1: "sorted_rows rt m = map csv_row ?xs"
    by (simp add: sorted_rows_def)
  from assms have 2: "mset ?xs = image_mset (\<lambda>k. the (m k)) (mset_set (dom m))"
    by (simp add: sort_Slice_ok_def range_order_ok_def MapToSlice_mset)
  have "(\<lambda>a b. \<not> more_stars b a) = (\<lambda>a b. stars b \<le> stars a)"
    by (auto simp: more_stars_def fun_eq_iff)
  with assms(2) have 3: "sorted_wrt (\<lambda>a b. stars b \<le> stars a) ?xs"
    by (simp add: sort_Slice_ok_def)
  from 1 2 3 show ?thesis by blast
qed

lemma sorted_rows_keys:
  assumes "keyed m" and "range_order_ok rt m"
    and "sort_Slice_ok rt more_stars (MapToSlice (range_order rt m) m)"
  shows "mset (map hd (sorted_rows rt m)) = mset_set (dom m)"
proof -
  let ?xs = "sort_Slice rt more_stars (MapToSlice (range_order rt m) m)"
  from assms(2,3) have "mset ?xs = image_mset (\<lambda>k. the (m k)) (mset_set (dom m))"
    by (simp add: sort_Slice_ok_def range_order_ok_def MapToSlice_mset)
  then have "mset (map name ?xs) = image_mset name (image_mset (\<lambda>k. the (m k)) (mset_set (dom m)))"
    by simp
  also have "\<dots> = image_mset (\<lambda>k. name (the (m k))) (mset_set (dom m))"
    by (simp add: image_mset.compositionality comp_def)
  also have "\<dots> = image_mset (\<lambda>k. k) (mset_set (dom m))"
  proof (rule image_mset_cong)
    fix k assume "k \<in># mset_set (dom m)"
    then have "k \<in> dom m"
      by (metis count_mset_set(3) not_in_iff)
    with assms(1) show "name (the (m k)) = k"
      by (auto simp: keyed_def)
  qed
  finally have "mset (map name ?xs) = mset_set (dom m)" by simp
  moreover have "map hd (sorted_rows rt m) = map name ?xs"
    by (simp add: sorted_rows_def csv_row_def)
  ultimately show ?thesis by simp
qed

subsection \<open>The pages\<close>

lemma Search_loop_returns_only_on_done_or_error:
  assumes "Search_loop rt g s query page results t = Some y"
  shows "done_after (ctx g) \<noteq> None \<or> (\<exists>n q p. Search_Repositories g n q p = None)"
proof (rule Search_loop.raw_induct
    [where P = "\<lambda>rt g s query page results t y.
                  done_after (ctx g) \<noteq> None \<or> (\<exists>n q p. Search_Repositories g n q p = None)",
     OF _ assms], goal_cases)
  case (1 f rt g s query page results t y)
  show ?case
  proof (rule ccontr)
    assume "\<not> ?thesis"
    then have never: "done_after (ctx g) = None" and ok: "\<forall>n q p. Search_Repositories g n q p \<noteq> None"
      by auto
    from never have c: "ctx_Err (ctx g) (moment t) = None"
      by (simp add: ctx_Err_def)
    from ok obtain repos NextPage where r: "Search_Repositories g (now t) query page = Some (repos, NextPage)"
      by (metis not_Some_eq surj_pair)
    obtain found err t1 where sc: "searchInRepositories g s repos (do_call (CallSearchRepositories query page) t) = (found, err, t1)"
      by (metis surj_pair)
    from searchInRepositories_no_error [OF never sc] have e: "err = None" .
    from "1"(2) c r sc e never have "\<exists>p r t. f rt g s query p r t = Some y"
      by (auto simp: sleepWithContext_def ctx_Err_def Let_def split: if_splits)
    with "1"(1) never ok show False
      by blast
  qed
qed

lemma Search_loop_never_returns:
  assumes "done_after (ctx g) = None"
    and "\<forall>n q p. Search_Repositories g n q p \<noteq> None"
  shows "Search_loop rt g s query page results t = None"
proof (cases "Search_loop rt g s query page results t")
  case None
  then show ?thesis .
next
  case (Some y)
  from Search_loop_returns_only_on_done_or_error [OF Some] assms show ?thesis
    by blast
qed

lemma Search_loop_last_page:
  assumes "ctx_Err (ctx g) (moment t) = None"
    and "Search_Repositories g (now t) query page = Some (repos, 0)"
    and "searchInRepositories g s repos (do_call (CallSearchRepositories query page) t) = (found, None, t1)"
  shows "Search_loop rt g s query page results t =
           Search_loop rt g s query page (update_results (range_order rt found) found results) t1"
  using assms by (subst Search_loop.simps) simp

lemma Search_loop_skips_cached:
  assumes "Search_loop rt g s query page results t = Some y"
  shows "cache s k \<noteq> None \<longrightarrow> results k = None \<longrightarrow> fst y k = None"
proof (rule Search_loop.raw_induct
    [where P = "\<lambda>rt g s query page results t y. cache s k \<noteq> None \<longrightarrow> results k = None \<longrightarrow> fst y k = None",
     OF _ assms], goal_cases)
  case (1 f rt g s query page results t y)
  show ?case
  proof (intro impI)
    assume cached: "cache s k \<noteq> None" and none: "results k = None"
    have found: "fst (searchInRepositories g s repos t') k = None" for repos t'
      using loop_keeps_cached [OF cached, of g repos Map.empty t'] by (simp add: searchInRepositories_def)
    have upd: "update_results ks (fst (searchInRepositories g s repos t')) results k = None" for ks repos t'
      using found [of repos t'] none by (simp add: update_results_apply)
    show "fst y k = None"
    proof (cases "ctx_Err (ctx g) (moment t)")
      case (Some e)
      with "1"(2) none show ?thesis by (auto split: if_splits)
    next
      case None
      show ?thesis
      proof (cases "Search_Repositories g (now t) query page")
        case None
        with "1"(2) \<open>ctx_Err (ctx g) (moment t) = None\<close> none show ?thesis by auto
      next
        case (Some a)
        obtain repos NextPage where a: "a = (repos, NextPage)" by (cases a)
        let ?sc = "searchInRepositories g s repos (do_call (CallSearchRepositories query page) t)"
        obtain found err t1 where sc: "?sc = (found, err, t1)"
          by (metis surj_pair)
        have u: "update_results ks found results k = None" for ks
          using upd [of ks repos "do_call (CallSearchRepositories query page) t"] sc by simp
        from "1"(2) \<open>ctx_Err (ctx g) (moment t) = None\<close> Some a sc
        have "\<exists>p r t. f rt g s query p r t = Some y \<and> r k = None"
          using none u
          by (cases err) (auto simp: sleepWithContext_def split: if_splits option.splits)
        with "1"(1) cached show ?thesis by blast
      qed
    qed
  qed
qed

lemma Search_loop_scan_error:
  assumes "ctx_Err (ctx g) (moment t) = None"
    and "Search_Repositories g (now t) query page = Some (repos, NextPage)"
    and "searchInRepositories g s repos (do_call (CallSearchRepositories query page) t) = (found, Some e, t1)"
  shows "Search_loop rt g s query page results t =
           Some (results, Some (ErrContext e), println (MsgErrorSearchingTheRepositories e) t1)"
proof -
  from assms(3) have d: "ctx_Err (ctx g) (moment t1) = Some e" and ne: "e \<noteq> Canceled"
    using loop_error_ctx [of g s repos Map.empty _ found e t1] by (simp_all add: searchInRepositories_def)
  have "Search_loop rt g s query page results t =
          Search_loop rt g s query page results (println (MsgErrorSearchingTheRepositories e) t1)"
    using assms by (subst Search_loop.simps) simp
  also have "\<dots> = Some (results, Some (ErrContext e), println (MsgErrorSearchingTheRepositories e) t1)"
  proof -
    from d have "ctx_Err (ctx g) (moment (println (MsgErrorSearchingTheRepositories e) t1)) = Some e"
      by (rule ctx_Err_mono) simp
    with ne show ?thesis
      by (subst Search_loop.simps) (simp del: moment_println)
  qed
  finally show ?thesis .
qed


lemmas world_defs =
  demo_github_def repo1_def repo2_def root_mod_def tools_mod_def widget_direct_def widget_indirect_def
  never_done_def done_from_def widget_search_def newSearchResult_def visiting_def

lemmas step_defs =
  io0_def now_def moment_def do_call_def println_def ctx_Err_def sleepWithContext_def check_repository_def
  code_query_def searchInRepositories_def Let_def

subsection \<open>Every map of the program is keyed\<close>

lemma keyed_empty [simp]: "keyed Map.empty"
  by (simp add: keyed_def)

lemma load_records_keyed:
  "keyed results \<Longrightarrow> load_records rows results = Inr m \<Longrightarrow> keyed m"
proof (induction rows arbitrary: results)
  case Nil
  then show ?case by simp
next
  case (Cons r rows)
  from Cons.prems(2) obtain n where n: "Atoi (r ! 2) = Some n" and l: "\<not> length r \<le> 2"
    and rest: "load_records rows (results(r ! 0 \<mapsto> \<lparr>name = r ! 0, used = (r ! 1 = ''true''), stars = n\<rparr>)) = Inr m"
    by (auto split: if_splits option.splits)
  from Cons.prems(1) have "keyed (results(r ! 0 \<mapsto> \<lparr>name = r ! 0, used = (r ! 1 = ''true''), stars = n\<rparr>))"
    by (simp add: keyed_def)
  from Cons.IH [OF this rest] show ?case .
qed

lemma load_cache_keyed: "load_cache f = Inr m \<Longrightarrow> keyed m"
  using load_records_keyed [of Map.empty _ m]
  by (auto simp: load_cache_def split: sum.splits)

lemma check_repository_keyed:
  assumes "keyed results"
  shows "keyed (fst (check_repository g s repo results t))"
  unfolding keyed_def
proof (intro allI impI)
  fix k r
  assume a: "fst (check_repository g s repo results t) k = Some r"
  from check_repository_entry [of g s repo results t k] a assms show "name r = k"
    by (auto simp: keyed_def)
qed

lemma loop_keyed:
  "keyed results \<Longrightarrow> keyed (fst (searchInRepositories_loop g s repos results t))"
proof (induction repos arbitrary: results t)
  case Nil
  then show ?case by simp
next
  case (Cons repo repos)
  obtain r' t' where c: "check_repository g s repo results t = (r', t')"
    by (cases "check_repository g s repo results t")
  with check_repository_keyed [OF Cons.prems, of g s repo t] have "keyed r'" by simp
  from Cons.IH [OF this, of t'] Cons.prems c show ?case
    by (simp split: option.split)
qed

lemma update_results_keyed:
  "keyed found \<Longrightarrow> keyed results \<Longrightarrow> keyed (update_results ks found results)"
  by (auto simp: keyed_def update_results_apply split: if_splits)

lemma merge_results_keyed:
  "keyed newResults \<Longrightarrow> keyed results \<Longrightarrow> keyed (merge_results ks newResults results)"
  by (auto simp: keyed_def merge_results_apply split: option.splits if_splits)

lemma Search_loop_keyed:
  assumes "Search_loop rt g s query page results t = Some y"
  shows "keyed results \<longrightarrow> keyed (fst y)"
proof (rule Search_loop.raw_induct
    [where P = "\<lambda>rt g s query page results t y. keyed results \<longrightarrow> keyed (fst y)", OF _ assms], goal_cases)
  case (1 f rt g s query page results t y)
  show ?case
  proof (intro impI)
    assume k: "keyed results"
    show "keyed (fst y)"
    proof (cases "ctx_Err (ctx g) (moment t)")
      case (Some e)
      with "1"(2) k show ?thesis by (auto split: if_splits)
    next
      case None
      show ?thesis
      proof (cases "Search_Repositories g (now t) query page")
        case None
        with "1"(2) \<open>ctx_Err (ctx g) (moment t) = None\<close> k show ?thesis by auto
      next
        case (Some a)
        obtain repos NextPage where a: "a = (repos, NextPage)" by (cases a)
        let ?sc = "searchInRepositories g s repos (do_call (CallSearchRepositories query page) t)"
        obtain found err t1 where sc: "?sc = (found, err, t1)"
          by (metis surj_pair)
        have "keyed found"
          using loop_keyed [of Map.empty g s repos "do_call (CallSearchRepositories query page) t"] sc
          by (simp add: searchInRepositories_def)
        from this k have u: "keyed (update_results ks found results)" for ks
          by (rule update_results_keyed)
        from "1"(2) \<open>ctx_Err (ctx g) (moment t) = None\<close> Some a sc
        have "\<exists>p r t. f rt g s query p r t = Some y \<and> keyed r"
          using k u
          by (cases err) (auto simp: sleepWithContext_def split: if_splits option.splits)
        with "1"(1) show ?thesis by blast
      qed
    qed
  qed
qed

lemma run_writes_merged:
  assumes "run rt g m pkg token = Some (None, f, t)"
  shows "\<exists>results newResults merged.
           load_cache (csv m) = Inr results
           \<and> Search rt g (newSearchResult pkg results) ''language:go stars:>1000'' 0 io0 = Some (newResults, None, t)
           \<and> merged = merge_results (range_order rt newResults) newResults results
           \<and> keyed merged
           \<and> f = Rows (sorted_rows rt merged)"
proof -
  from assms obtain results where l: "load_cache (csv m) = Inr results"
    by (auto simp: run_def split: if_splits sum.splits)
  with assms obtain newResults where
    s: "Search rt g (newSearchResult pkg results) ''language:go stars:>1000'' 0 io0 = Some (newResults, None, t)"
    and f: "f = Rows (sorted_rows rt (merge_results (range_order rt newResults) newResults results))"
    by (auto simp: run_def Let_def split: if_splits option.splits)
  from s have "keyed newResults"
    using Search_loop_keyed [of rt g "newSearchResult pkg results" _ 0 Map.empty io0 "(newResults, None, t)"]
    by (simp add: Search_def)
  with load_cache_keyed [OF l] have "keyed (merge_results (range_order rt newResults) newResults results)"
    by (intro merge_results_keyed)
  with l s f show ?thesis by blast
qed

subsection \<open>The small world, run\<close>

lemma checked_repo1:
  "checked (demo_github (done_from 12 Canceled) 0) (widget_search Map.empty) [repo1] (Map.empty, io0) =
     ([''org/repo1'' \<mapsto> result1],
      \<lparr>calls = [CallSearchCode ''acme/widget repo:org/repo1 filename:go.mod'',
                CallDownloadContents ''org'' ''repo1'' ''go.mod'',
                CallDownloadContents ''org'' ''repo1'' ''tools/go.mod'',
                CallSleep 7],
       stdout = [MsgCheckingRepository ''org/repo1'', MsgSearchedRepository ''org/repo1'', MsgStatusAndTotal,
                 MsgParsed ''go.mod'', MsgFoundPackage ''acme/widget'' ''v1.2.0'' ''org/repo1'',
                 MsgParsed ''tools/go.mod'', MsgSleepingInSearchInRepositories 7]\<rparr>)"
  by (simp add: world_defs result1_def step_defs)

lemma checked_repo1_repo0:
  "checked (demo_github (done_from 12 Canceled) 0) (widget_search Map.empty) [repo1, repo0] (Map.empty, io0) =
     ([''org/repo1'' \<mapsto> result1],
      \<lparr>calls = [CallSearchCode ''acme/widget repo:org/repo1 filename:go.mod'',
                CallDownloadContents ''org'' ''repo1'' ''go.mod'',
                CallDownloadContents ''org'' ''repo1'' ''tools/go.mod'',
                CallSleep 7],
       stdout = [MsgCheckingRepository ''org/repo1'', MsgSearchedRepository ''org/repo1'', MsgStatusAndTotal,
                 MsgParsed ''go.mod'', MsgFoundPackage ''acme/widget'' ''v1.2.0'' ''org/repo1'',
                 MsgParsed ''tools/go.mod'', MsgSleepingInSearchInRepositories 7,
                 MsgSkippingArchivedDisabledForked ''org/repo0'']\<rparr>)"
  by (simp add: world_defs result1_def repo0_def step_defs)

lemma scan_demo_page:
  "searchInRepositories (demo_github never_done 0) (widget_search Map.empty) [repo1, repo2]
     (do_call (CallSearchRepositories ''language:go stars:>1000'' 0) io0) =
   ([''org/repo1'' \<mapsto> result1, ''org/repo2'' \<mapsto> \<lparr>name = ''org/repo2'', used = False, stars = 3000\<rparr>],
    None,
    \<lparr>calls = [CallSearchRepositories ''language:go stars:>1000'' 0,
              CallSearchCode ''acme/widget repo:org/repo1 filename:go.mod'',
              CallDownloadContents ''org'' ''repo1'' ''go.mod'',
              CallDownloadContents ''org'' ''repo1'' ''tools/go.mod'',
              CallSleep 7,
              CallSearchCode ''acme/widget repo:org/repo2 filename:go.mod'',
              CallDownloadContents ''org'' ''repo2'' ''tools/go.mod'',
              CallSleep 7],
     stdout = [MsgCheckingRepository ''org/repo1'', MsgSearchedRepository ''org/repo1'', MsgStatusAndTotal,
               MsgParsed ''go.mod'', MsgFoundPackage ''acme/widget'' ''v1.2.0'' ''org/repo1'',
               MsgParsed ''tools/go.mod'', MsgSleepingInSearchInRepositories 7,
               MsgCheckingRepository ''org/repo2'', MsgSearchedRepository ''org/repo2'', MsgStatusAndTotal,
               MsgParsed ''tools/go.mod'', MsgPackageNotFound ''acme/widget'' ''org/repo2'',
               MsgSleepingInSearchInRepositories 7]\<rparr>)"
  by (simp add: world_defs result1_def step_defs)

lemma run_cancelled_at_once:
  "run (visiting ks) (demo_github (done_from 0 Canceled) 0)
       (demo_os [[''org/repo2'', ''false'', ''5000''], [''org/repo1'', ''true'', ''5000'']])
       ''acme/widget'' ''token'' =
     Some (None,
           Rows (sorted_rows (visiting ks) tied_results),
           \<lparr>calls = [], stdout = [MsgContextCanceled]\<rparr>)"
proof -
  have l: "load_cache (Rows [[''org/repo2'', ''false'', ''5000''], [''org/repo1'', ''true'', ''5000'']]) =
             Inr tied_results"
    by (simp add: load_cache_def OpenFile_def csv_ReadAll_def Atoi_def digit_val_def
          world_defs result1_def result2_def tied_results_def demo_os_def fun_upd_twist)
  have s: "Search (visiting ks) (demo_github (done_from 0 Canceled) 0) (newSearchResult ''acme/widget'' tied_results)
             ''language:go stars:>1000'' 0 io0 =
           Some (Map.empty, None, \<lparr>calls = [], stdout = [MsgContextCanceled]\<rparr>)"
    unfolding Search_def
    by (subst Search_loop.simps) (simp add: demo_github_def done_from_def step_defs)
  have m: "merge_results (range_order (visiting ks) Map.empty) Map.empty tied_results = tied_results"
    by (rule ext) (simp add: merge_results_apply split: option.split)
  show ?thesis
    by (simp add: run_def demo_os_def l s m)
qed

section \<open>The claims\<close>

text \<open>
  C1. The claim: when the search response says that no further page exists
  (\<^verbatim>\<open>NextPage == 0\<close>), \<^verbatim>\<open>Search\<close> returns the accumulated results. The code does not: the
  \<^verbatim>\<open>break\<close> of line 245 leaves the \<^verbatim>\<open>select\<close>, not the \<^verbatim>\<open>for\<close>. With a context that is never
  done and a search that always answers "no further page", \<^verbatim>\<open>Search\<close> never returns;
  and an iteration that ends on \<^verbatim>\<open>NextPage == 0\<close> goes on with the same page number.
\<close>

theorem Search_never_returns_after_last_page:
  "(done_after (ctx g) = None \<and> (\<forall>n q p. \<exists>repos. Search_Repositories g n q p = Some (repos, 0))
      \<longrightarrow> Search rt g s query page t = None)
   \<and> (ctx_Err (ctx g) (moment t) = None
        \<and> Search_Repositories g (now t) query page = Some (repos, 0)
        \<and> searchInRepositories g s repos (do_call (CallSearchRepositories query page) t) = (found, None, t1)
      \<longrightarrow> Search_loop rt g s query page results t =
          Search_loop rt g s query page (update_results (range_order rt found) found results) t1)"
proof (intro conjI impI)
  assume a: "done_after (ctx g) = None \<and> (\<forall>n q p. \<exists>repos. Search_Repositories g n q p = Some (repos, 0))"
  then have "\<forall>n q p. Search_Repositories g n q p \<noteq> None"
    by (metis option.distinct(1))
  with a show "Search rt g s query page t = None"
    by (simp add: Search_def Search_loop_never_returns)
next
  assume "ctx_Err (ctx g) (moment t) = None
        \<and> Search_Repositories g (now t) query page = Some (repos, 0)
        \<and> searchInRepositories g s repos (do_call (CallSearchRepositories query page) t) = (found, None, t1)"
  then show "Search_loop rt g s query page results t =
          Search_loop rt g s query page (update_results (range_order rt found) found results) t1"
    using Search_loop_last_page [where g = g and t = t and query = query and page = page and repos = repos
        and s = s and found = found and ?t1.0 = t1 and rt = rt and results = results]
    by blast
qed

text \<open>
  On the small world: the search never returns, and after the first page (whose
  answer says there is no further one) the loop is back at page 0 with the calls of
  that page made.
\<close>

theorem Search_never_returns_after_last_page_witness:
  "Search (visiting [''org/repo1'', ''org/repo2'']) (demo_github never_done 0) (widget_search Map.empty)
      ''language:go stars:>1000'' 0 io0 = None
   \<and> Search_loop (visiting [''org/repo1'', ''org/repo2'']) (demo_github never_done 0) (widget_search Map.empty)
      ''language:go stars:>1000'' 0 Map.empty io0 =
     Search_loop (visiting [''org/repo1'', ''org/repo2'']) (demo_github never_done 0) (widget_search Map.empty)
      ''language:go stars:>1000'' 0
      [''org/repo1'' \<mapsto> result1, ''org/repo2'' \<mapsto> \<lparr>name = ''org/repo2'', used = False, stars = 3000\<rparr>]
      \<lparr>calls = [CallSearchRepositories ''language:go stars:>1000'' 0,
                CallSearchCode ''acme/widget repo:org/repo1 filename:go.mod'',
                CallDownloadContents ''org'' ''repo1'' ''go.mod'',
                CallDownloadContents ''org'' ''repo1'' ''tools/go.mod'',
                CallSleep 7,
                CallSearchCode ''acme/widget repo:org/repo2 filename:go.mod'',
                CallDownloadContents ''org'' ''repo2'' ''tools/go.mod'',
                CallSleep 7],
       stdout = [MsgCheckingRepository ''org/repo1'', MsgSearchedRepository ''org/repo1'', MsgStatusAndTotal,
                 MsgParsed ''go.mod'', MsgFoundPackage ''acme/widget'' ''v1.2.0'' ''org/repo1'',
                 MsgParsed ''tools/go.mod'', MsgSleepingInSearchInRepositories 7,
                 MsgCheckingRepository ''org/repo2'', MsgSearchedRepository ''org/repo2'', MsgStatusAndTotal,
                 MsgParsed ''tools/go.mod'', MsgPackageNotFound ''acme/widget'' ''org/repo2'',
                 MsgSleepingInSearchInRepositories 7]\<rparr>"
proof -
  let ?rt = "visiting [''org/repo1'', ''org/repo2'']"
  let ?g = "demo_github never_done 0"
  let ?s = "widget_search Map.empty"
  let ?q = "''language:go stars:>1000''"
  let ?found = "[''org/repo1'' \<mapsto> result1, ''org/repo2'' \<mapsto> \<lparr>name = ''org/repo2'', used = False, stars = 3000\<rparr>]"
  note T = Search_never_returns_after_last_page
             [where g = ?g and rt = ?rt and s = ?s and query = ?q and page = 0 and t = io0
                and repos = "[repo1, repo2]" and results = Map.empty and found = ?found]
  have 1: "done_after (ctx ?g) = None \<and> (\<forall>n q p. \<exists>repos. Search_Repositories ?g n q p = Some (repos, 0))"
    by (simp add: demo_github_def never_done_def)
  have 2: "ctx_Err (ctx ?g) (moment io0) = None" "Search_Repositories ?g (now io0) ?q 0 = Some ([repo1, repo2], 0)"
    by (simp_all add: demo_github_def never_done_def ctx_Err_def)
  have u: "update_results (range_order ?rt ?found) ?found Map.empty = ?found"
    by (rule ext) (simp add: update_results_apply world_defs result1_def)
  have A: "Search ?rt ?g ?s ?q 0 io0 = None"
    by (rule T [THEN conjunct1, THEN mp, OF 1])
  from T [THEN conjunct2, THEN mp, OF conjI [OF 2(1) conjI [OF 2(2) scan_demo_page]]] u A
  show ?thesis by simp
qed

text \<open>
  C2. A repository that the cache holds is left as it is: the scan of a page emits
  no result for it, going through it makes no call and changes no result, no result
  of a whole \<^verbatim>\<open>Search\<close> is for it, the merge of \<^verbatim>\<open>run\<close> keeps the cached entry whatever
  the new results and the order of the merge are, and a \<^verbatim>\<open>run\<close> that ends without error
  writes the file from a map that still holds the cached entry.
\<close>

theorem cached_repository_untouched:
  assumes "cache s k = Some v"
  shows "fst (searchInRepositories g s repos t) k = None
         \<and> (GetFullName repo = k \<longrightarrow>
               fst (check_repository g s repo results t) = results
               \<and> calls (snd (check_repository g s repo results t)) = calls t)
         \<and> (Search rt g s query page t = Some (newResults, err, t') \<longrightarrow> newResults k = None)
         \<and> merge_results ks found (cache s) k = Some v
         \<and> (load_cache (csv os) = Inr (cache s) \<and> run rt g os pkg token = Some (None, f, t'') \<longrightarrow>
               (\<exists>merged. f = Rows (sorted_rows rt merged) \<and> merged k = Some v))"
proof (intro conjI impI)
  from assms show "fst (searchInRepositories g s repos t) k = None"
    by (simp add: searchInRepositories_def loop_keeps_cached)
next
  assume "GetFullName repo = k"
  with assms have c: "cache s (GetFullName repo) = Some v" by simp
  show "fst (check_repository g s repo results t) = results"
    by (simp add: check_repository_cached [OF c])
  show "calls (snd (check_repository g s repo results t)) = calls t"
    by (simp add: check_repository_cached [OF c])
next
  assume "Search rt g s query page t = Some (newResults, err, t')"
  then have "Search_loop rt g s query page Map.empty t = Some (newResults, err, t')"
    by (simp add: Search_def)
  from Search_loop_skips_cached [OF this, of k] assms show "newResults k = None"
    by simp
next
  from assms show "merge_results ks found (cache s) k = Some v"
    by (simp add: merge_results_apply)
next
  assume a: "load_cache (csv os) = Inr (cache s) \<and> run rt g os pkg token = Some (None, f, t'')"
  from run_writes_merged [of rt g os pkg token f t''] a
  obtain new where "f = Rows (sorted_rows rt (merge_results (range_order rt new) new (cache s)))"
    by auto
  moreover from assms have "merge_results (range_order rt new) new (cache s) k = Some v"
    by (simp add: merge_results_apply)
  ultimately show "\<exists>merged. f = Rows (sorted_rows rt merged) \<and> merged k = Some v"
    by blast
qed

theorem cached_repository_untouched_witness:
  "fst (searchInRepositories (demo_github never_done 0) (widget_search tied_results) [repo1] io0) ''org/repo1'' = None
   \<and> check_repository (demo_github never_done 0) (widget_search tied_results) repo1 Map.empty io0 =
       (Map.empty, \<lparr>calls = [], stdout = [MsgSkippingRepository ''org/repo1'' True]\<rparr>)
   \<and> Search (visiting []) (demo_github (done_from 0 Canceled) 0) (widget_search tied_results)
        ''language:go stars:>1000'' 0 io0 = Some (Map.empty, None, \<lparr>calls = [], stdout = [MsgContextCanceled]\<rparr>)
   \<and> merge_results [''org/repo1''] page1_later tied_results ''org/repo1'' = Some result1
   \<and> (\<exists>merged. Rows (sorted_rows (visiting []) tied_results) = Rows (sorted_rows (visiting []) merged)
          \<and> merged ''org/repo1'' = Some result1)"
proof -
  let ?s = "widget_search tied_results"
  let ?os = "demo_os [[''org/repo2'', ''false'', ''5000''], [''org/repo1'', ''true'', ''5000'']]"
  have c: "cache ?s ''org/repo1'' = Some result1"
    by (simp add: world_defs result1_def result2_def tied_results_def page1_later_def demo_os_def)
  have n: "GetFullName repo1 = ''org/repo1''"
    by (simp add: repo1_def)
  have s: "Search (visiting []) (demo_github (done_from 0 Canceled) 0) ?s ''language:go stars:>1000'' 0 io0 =
             Some (Map.empty, None, \<lparr>calls = [], stdout = [MsgContextCanceled]\<rparr>)"
    unfolding Search_def
    by (subst Search_loop.simps) (simp add: demo_github_def done_from_def step_defs)
  have p: "cache ?s = tied_results"
    by (simp add: world_defs result1_def result2_def tied_results_def page1_later_def demo_os_def)
  have l: "load_cache (csv ?os) = Inr (cache ?s)"
    by (simp add: load_cache_def OpenFile_def csv_ReadAll_def Atoi_def digit_val_def
          world_defs result1_def result2_def tied_results_def page1_later_def demo_os_def fun_upd_twist)
  note T = cached_repository_untouched
         [OF c, where g = "demo_github never_done 0" and repos = "[repo1]" and t = io0 and repo = repo1
            and results = Map.empty and ks = "[''org/repo1'']" and found = page1_later]
  note U = cached_repository_untouched
         [OF c, where g = "demo_github (done_from 0 Canceled) 0" and rt = "visiting []" and query = "''language:go stars:>1000''"
            and page = 0 and t = io0 and os = ?os and pkg = "''acme/widget''" and token = "''token''"]
  have 1: "fst (searchInRepositories (demo_github never_done 0) ?s [repo1] io0) ''org/repo1'' = None"
    by (rule T [THEN conjunct1])
  have 2: "check_repository (demo_github never_done 0) ?s repo1 Map.empty io0 =
       (Map.empty, \<lparr>calls = [], stdout = [MsgSkippingRepository ''org/repo1'' True]\<rparr>)"
    using T [THEN conjunct2, THEN conjunct1, THEN mp, OF n]
    by (simp add: check_repository_def
          world_defs result1_def result2_def tied_results_def page1_later_def demo_os_def step_defs)
  have 4: "merge_results [''org/repo1''] page1_later tied_results ''org/repo1'' = Some result1"
    using T [THEN conjunct2, THEN conjunct2, THEN conjunct2, THEN conjunct1] p by simp
  have 5: "\<exists>merged. Rows (sorted_rows (visiting []) tied_results) = Rows (sorted_rows (visiting []) merged)
          \<and> merged ''org/repo1'' = Some result1"
    by (rule U [THEN conjunct2, THEN conjunct2, THEN conjunct2, THEN conjunct2, THEN mp])
       (simp add: l run_cancelled_at_once)
  from 1 2 s 4 5 show ?thesis by (intro conjI)
qed

text \<open>
  C3. For a repository that is scanned (not archived, disabled or a fork, not in the
  cache, its code search answered), the stored result has \<open>used\<close> true exactly when
  some file of the code search was downloaded and parsed and its manifest holds a
  require entry with the package's path and the indirect flag off. So a package
  required only as indirect gives \<open>used = False\<close>. The download of file \<open>i\<close> is call number
  \<open>Suc (now t) + i\<close>: after the code search and the files before it.
\<close>

theorem used_iff_direct_require:
  assumes "\<not> GetArchived repo \<and> \<not> GetDisabled repo \<and> \<not> GetFork repo"
    and "cache s (GetFullName repo) = None"
    and "Search_Code g (now t) (code_query s repo) = Some files"
  shows "fst (check_repository g s repo results t) (GetFullName repo) =
           Some \<lparr>name = GetFullName repo,
                 used = (\<exists>i < length files. \<exists>reqs.
                           manifest g (Suc (now t) + i) repo (files ! i) = Some reqs
                           \<and> (\<exists>r \<in> set reqs. Mod_Path r = packageName s \<and> \<not> Indirect r)),
                 stars = GetStargazersCount repo\<rparr>
         \<and> ((\<forall>i < length files. \<forall>reqs. manifest g (Suc (now t) + i) repo (files ! i) = Some reqs \<longrightarrow>
                 (\<forall>r \<in> set reqs. Mod_Path r = packageName s \<longrightarrow> Indirect r)) \<longrightarrow>
             fst (check_repository g s repo results t) (GetFullName repo) =
               Some \<lparr>name = GetFullName repo, used = False, stars = GetStargazersCount repo\<rparr>)"
proof -
  let ?U = "\<exists>i < length files. \<exists>reqs. manifest g (Suc (now t) + i) repo (files ! i) = Some reqs
              \<and> (\<exists>r \<in> set reqs. Mod_Path r = packageName s \<and> \<not> Indirect r)"
  from assms have 1: "fst (check_repository g s repo results t) (GetFullName repo) =
      Some \<lparr>name = GetFullName repo, used = ?U, stars = GetStargazersCount repo\<rparr>"
    by (simp add: check_repository_result check_files_used direct_require_def)
  have "(\<forall>i < length files. \<forall>reqs. manifest g (Suc (now t) + i) repo (files ! i) = Some reqs \<longrightarrow>
           (\<forall>r \<in> set reqs. Mod_Path r = packageName s \<longrightarrow> Indirect r)) \<Longrightarrow> \<not> ?U"
    by blast
  with 1 show ?thesis by auto
qed

theorem used_iff_direct_require_witness:
  "fst (check_repository (demo_github never_done 0) (widget_search Map.empty) repo2 Map.empty io0) ''org/repo2'' =
     Some \<lparr>name = ''org/repo2'', used = False, stars = 3000\<rparr>"
proof -
  let ?g = "demo_github never_done 0"
  let ?s = "widget_search Map.empty"
  have 1: "\<not> GetArchived repo2 \<and> \<not> GetDisabled repo2 \<and> \<not> GetFork repo2"
    by (simp add: repo2_def)
  have 2: "cache ?s (GetFullName repo2) = None"
    by (simp add: world_defs)
  have 3: "Search_Code ?g (now io0) (code_query ?s repo2) = Some [tools_mod]"
    by (simp add: world_defs code_query_def)
  have 4: "\<forall>i < length [tools_mod]. \<forall>reqs. manifest ?g (Suc (now io0) + i) repo2 ([tools_mod] ! i) = Some reqs \<longrightarrow>
             (\<forall>r \<in> set reqs. Mod_Path r = packageName ?s \<longrightarrow> Indirect r)"
    by (auto simp: manifest_def world_defs)
  from used_iff_direct_require [OF 1 2 3, of Map.empty, THEN conjunct2, THEN mp, OF 4]
  show ?thesis
    by (simp add: repo2_def)
qed

text \<open>
  C4, as amended. The claim says that a star count which is not a non-negative
  integer is refused. \<^verbatim>\<open>strconv.Atoi\<close> accepts a sign, so a negative count loads. What
  holds: with rows of at least three fields, the load fails with the star-count
  error exactly when the reader accepts the rows and \<^verbatim>\<open>Atoi\<close> refuses the third field
  of one of them; \<^verbatim>\<open>Atoi\<close> accepts the decimal form of every 64-bit integer; a missing
  file loads as the empty map; and when the load fails, \<^verbatim>\<open>run\<close> returns that error
  with no call made.
\<close>

theorem load_fails_iff_Atoi_fails:
  "((\<forall>r \<in> set rows. 3 \<le> length r) \<longrightarrow>
      (load_cache (Rows rows) = Inl ErrInvalidStarCount \<longleftrightarrow>
         csv_ReadAll rows = Inr rows \<and> (\<exists>r \<in> set rows. Atoi (r ! 2) = None)))
   \<and> (- (2 ^ 63) \<le> i \<and> i < 2 ^ 63 \<longrightarrow> Atoi (Itoa i) = Some i)
   \<and> load_cache Missing = Inr Map.empty
   \<and> (pkg \<noteq> [] \<and> token \<noteq> [] \<and> dir m \<noteq> DirUncreatable \<and> load_cache (csv m) = Inl e \<longrightarrow>
        run rt g m pkg token = Some (Some e, opened (csv m), io0))"
proof (intro conjI impI)
  assume a: "\<forall>r \<in> set rows. 3 \<le> length r"
  from csv_ReadAll_cases [of rows] load_records_invalid_iff [OF a, of Map.empty]
  show "load_cache (Rows rows) = Inl ErrInvalidStarCount \<longleftrightarrow>
          csv_ReadAll rows = Inr rows \<and> (\<exists>r \<in> set rows. Atoi (r ! 2) = None)"
    by (auto simp: load_cache_def OpenFile_def)
next
  assume "- (2 ^ 63) \<le> i \<and> i < 2 ^ 63"
  then show "Atoi (Itoa i) = Some i"
    by (simp add: Atoi_Itoa)
next
  show "load_cache Missing = Inr Map.empty"
    by (simp add: load_cache_def OpenFile_def csv_ReadAll_def)
next
  assume "pkg \<noteq> [] \<and> token \<noteq> [] \<and> dir m \<noteq> DirUncreatable \<and> load_cache (csv m) = Inl e"
  then show "run rt g m pkg token = Some (Some e, opened (csv m), io0)"
    by (simp add: run_def)
qed

theorem load_fails_iff_Atoi_fails_witness:
  "load_cache (Rows [[''org/x'', ''true'', ''notanumber'']]) = Inl ErrInvalidStarCount
   \<and> Atoi (Itoa (- 5)) = Some (- 5)
   \<and> run (visiting []) (demo_github never_done 0) (demo_os [[''org/x'', ''true'', ''notanumber'']])
        ''acme/widget'' ''token'' =
       Some (Some ErrInvalidStarCount, Rows [[''org/x'', ''true'', ''notanumber'']], io0)"
proof -
  let ?rows = "[[''org/x'', ''true'', ''notanumber'']]"
  have l: "load_cache (Rows ?rows) = Inl ErrInvalidStarCount"
    by (simp add: load_cache_def OpenFile_def csv_ReadAll_def Atoi_def digit_val_def)
  from load_fails_iff_Atoi_fails
         [of ?rows "- 5" "''acme/widget''" "''token''" "demo_os ?rows" ErrInvalidStarCount
             "visiting []" "demo_github never_done 0"] l
  show ?thesis
    by (simp add: demo_os_def opened_def)
qed

text \<open>
  C4 as stated fails: the row \<^verbatim>\<open>org/x,true,-5\<close> is loaded, with \<open>- 5\<close> stars.
\<close>

theorem negative_stars_accepted:
  "load_cache (Rows [[''org/x'', ''true'', ''-5'']]) =
     Inr [''org/x'' \<mapsto> \<lparr>name = ''org/x'', used = True, stars = - 5\<rparr>]"
  by (simp add: load_cache_def OpenFile_def csv_ReadAll_def Atoi_def digit_val_def)

text \<open>
  C5, as amended. The claim says that rows with equal star counts keep their
  insertion order. A Go map has no such order and \<^verbatim>\<open>sort.Slice\<close> promises no stability.
  What holds, for every visiting order and every sorted rearrangement: the rows are
  the rows \<open>csv_row\<close> (name, \<^verbatim>\<open>"true"\<close> or \<^verbatim>\<open>"false"\<close>, decimal stars) of the entries of
  the map, one for each key, with the star counts descending; in a keyed map the
  names are the keys; and the file that a \<^verbatim>\<open>run\<close> without error leaves holds these rows
  for a keyed map.
\<close>

theorem rows_sorted_by_stars:
  assumes "range_order_ok rt m"
    and "sort_Slice_ok rt more_stars (MapToSlice (range_order rt m) m)"
  shows "(\<exists>xs. sorted_rows rt m = map csv_row xs
            \<and> mset xs = image_mset (\<lambda>k. the (m k)) (mset_set (dom m))
            \<and> sorted_wrt (\<lambda>a b. stars b \<le> stars a) xs)
         \<and> (keyed m \<longrightarrow> mset (map hd (sorted_rows rt m)) = mset_set (dom m))
         \<and> (run rt g os pkg token = Some (None, f, t) \<longrightarrow>
               (\<exists>merged. keyed merged \<and> f = Rows (sorted_rows rt merged)))"
proof (intro conjI impI)
  from assms show "\<exists>xs. sorted_rows rt m = map csv_row xs
            \<and> mset xs = image_mset (\<lambda>k. the (m k)) (mset_set (dom m))
            \<and> sorted_wrt (\<lambda>a b. stars b \<le> stars a) xs"
    by (rule sorted_rows_values)
next
  assume "keyed m"
  from this assms show "mset (map hd (sorted_rows rt m)) = mset_set (dom m)"
    by (rule sorted_rows_keys)
next
  assume "run rt g os pkg token = Some (None, f, t)"
  from run_writes_merged [OF this] show "\<exists>merged. keyed merged \<and> f = Rows (sorted_rows rt merged)"
    by blast
qed

theorem rows_sorted_by_stars_witness:
  "(\<exists>xs. sorted_rows (visiting [''org/repo2'', ''org/repo1'']) tied_results = map csv_row xs
      \<and> mset xs = image_mset (\<lambda>k. the (tied_results k)) (mset_set (dom tied_results))
      \<and> sorted_wrt (\<lambda>a b. stars b \<le> stars a) xs)
   \<and> mset (map hd (sorted_rows (visiting [''org/repo2'', ''org/repo1'']) tied_results)) =
       mset_set (dom tied_results)
   \<and> (\<exists>merged. keyed merged
         \<and> Rows (sorted_rows (visiting [''org/repo2'', ''org/repo1'']) tied_results) =
           Rows (sorted_rows (visiting [''org/repo2'', ''org/repo1'']) merged))"
proof -
  let ?rt = "visiting [''org/repo2'', ''org/repo1'']"
  have 1: "range_order_ok ?rt tied_results"
    by (auto simp: range_order_ok_def world_defs result1_def result2_def tied_results_def demo_os_def)
  have 2: "sort_Slice_ok ?rt more_stars (MapToSlice (range_order ?rt tied_results) tied_results)"
    by (simp add: sort_Slice_ok_def MapToSlice_def List.map_filter_simps insertionSort_def more_stars_def
          world_defs result1_def result2_def tied_results_def demo_os_def)
  have 3: "keyed tied_results"
    by (simp add: keyed_def world_defs result1_def result2_def tied_results_def demo_os_def)
  note T = rows_sorted_by_stars [OF 1 2, where g = "demo_github (done_from 0 Canceled) 0"
      and os = "demo_os [[''org/repo2'', ''false'', ''5000''], [''org/repo1'', ''true'', ''5000'']]"
      and pkg = "''acme/widget''" and token = "''token''"
      and f = "Rows (sorted_rows ?rt tied_results)" and t = "\<lparr>calls = [], stdout = [MsgContextCanceled]\<rparr>"]
  from T [THEN conjunct1] T [THEN conjunct2, THEN conjunct1, THEN mp, OF 3]
    T [THEN conjunct2, THEN conjunct2, THEN mp, OF run_cancelled_at_once]
  show ?thesis by (intro conjI)
qed

theorem tie_order_follows_range_order:
  "sorted_rows (visiting [''org/repo1'', ''org/repo2'']) tied_results =
     [[''org/repo1'', ''true'', ''5000''], [''org/repo2'', ''false'', ''5000'']]
   \<and> sorted_rows (visiting [''org/repo2'', ''org/repo1'']) tied_results =
     [[''org/repo2'', ''false'', ''5000''], [''org/repo1'', ''true'', ''5000'']]
   \<and> sorted_rows (visiting [''org/repo1'', ''org/repo2'']) tied_results \<noteq>
     sorted_rows (visiting [''org/repo2'', ''org/repo1'']) tied_results
   \<and> range_order_ok (visiting [''org/repo1'', ''org/repo2'']) tied_results
   \<and> range_order_ok (visiting [''org/repo2'', ''org/repo1'']) tied_results
   \<and> sort_Slice_ok (visiting [''org/repo1'', ''org/repo2'']) more_stars
       (MapToSlice (range_order (visiting [''org/repo1'', ''org/repo2'']) tied_results) tied_results)
   \<and> sort_Slice_ok (visiting [''org/repo2'', ''org/repo1'']) more_stars
       (MapToSlice (range_order (visiting [''org/repo2'', ''org/repo1'']) tied_results) tied_results)"
proof -
  let ?a = "visiting [''org/repo1'', ''org/repo2'']"
  let ?b = "visiting [''org/repo2'', ''org/repo1'']"
  have 1: "sorted_rows ?a tied_results =
          [[''org/repo1'', ''true'', ''5000''], [''org/repo2'', ''false'', ''5000'']]"
    by (simp add: sorted_rows_def MapToSlice_def List.map_filter_simps insertionSort_def more_stars_def
          csv_row_def Itoa_def digits_of.simps digit_char_def world_defs result1_def result2_def tied_results_def)
  have 2: "sorted_rows ?b tied_results =
          [[''org/repo2'', ''false'', ''5000''], [''org/repo1'', ''true'', ''5000'']]"
    by (simp add: sorted_rows_def MapToSlice_def List.map_filter_simps insertionSort_def more_stars_def
          csv_row_def Itoa_def digits_of.simps digit_char_def world_defs result1_def result2_def tied_results_def)
  have 3: "sorted_rows ?a tied_results \<noteq> sorted_rows ?b tied_results"
    unfolding 1 2 by simp
  have 4: "range_order_ok ?a tied_results"
    by (auto simp: range_order_ok_def world_defs result1_def result2_def tied_results_def)
  have 5: "range_order_ok ?b tied_results"
    by (auto simp: range_order_ok_def world_defs result1_def result2_def tied_results_def)
  have 6: "sort_Slice_ok ?a more_stars (MapToSlice (range_order ?a tied_results) tied_results)"
    by (simp add: sort_Slice_ok_def MapToSlice_def List.map_filter_simps insertionSort_def more_stars_def
          world_defs result1_def result2_def tied_results_def)
  have 7: "sort_Slice_ok ?b more_stars (MapToSlice (range_order ?b tied_results) tied_results)"
    by (simp add: sort_Slice_ok_def MapToSlice_def List.map_filter_simps insertionSort_def more_stars_def
          world_defs result1_def result2_def tied_results_def)
  from 1 2 3 4 5 6 7 show ?thesis by (intro conjI)
qed

text \<open>
  C6, as amended. The claim says that the map returned on cancellation holds only
  results of candidates fully processed before the cancellation, none partially
  constructed. The scan looks at the context only before each repository; a
  repository during whose inspection the context is cancelled is gone through to the
  end and its result is stored, built from what the refused calls still gave. What
  holds: when the check before some repository finds the context cancelled, after
  the checks before the earlier ones found it not done, the scan returns, without
  error and without a further call, the results accumulated from those earlier
  repositories. These are exactly the results of their inspections: every entry is
  the inspection of one of them, taken when it was reached, and every one of them
  whose inspection gives a result has an entry.
\<close>

theorem cancelled_scan_returns_accumulated:
  assumes "\<forall>j < length pre. ctx_Err (ctx g) (moment (snd (checked g s (take j pre) (Map.empty, t)))) = None"
    and "ctx_Err (ctx g) (moment (snd (checked g s pre (Map.empty, t)))) = Some Canceled"
  shows "searchInRepositories g s (pre @ repo # rest) t =
           (fst (checked g s pre (Map.empty, t)), None,
            println MsgContextCanceled (snd (checked g s pre (Map.empty, t))))
         \<and> (\<forall>k v. fst (checked g s pre (Map.empty, t)) k = Some v \<longrightarrow>
               (\<exists>i < length pre. GetFullName (pre ! i) = k
                  \<and> inspection g s (pre ! i) (snd (checked g s (take i pre) (Map.empty, t))) = Some v))
         \<and> (\<forall>i < length pre.
               inspection g s (pre ! i) (snd (checked g s (take i pre) (Map.empty, t))) \<noteq> None \<longrightarrow>
               fst (checked g s pre (Map.empty, t)) (GetFullName (pre ! i)) \<noteq> None)"
proof (intro conjI allI impI)
  obtain r' t' where c: "checked g s pre (Map.empty, t) = (r', t')"
    by (cases "checked g s pre (Map.empty, t)")
  with assms(2) have "searchInRepositories_loop g s (repo # rest) r' t' = (r', None, println MsgContextCanceled t')"
    by simp
  with loop_append [OF assms(1), of "repo # rest"] c
  show "searchInRepositories g s (pre @ repo # rest) t =
           (fst (checked g s pre (Map.empty, t)), None,
            println MsgContextCanceled (snd (checked g s pre (Map.empty, t))))"
    by (simp add: searchInRepositories_def)
next
  fix k v
  assume "fst (checked g s pre (Map.empty, t)) k = Some v"
  from checked_sound [OF this]
  show "\<exists>i < length pre. GetFullName (pre ! i) = k
          \<and> inspection g s (pre ! i) (snd (checked g s (take i pre) (Map.empty, t))) = Some v"
    by simp
next
  fix i
  assume "i < length pre"
    and "inspection g s (pre ! i) (snd (checked g s (take i pre) (Map.empty, t))) \<noteq> None"
  then show "fst (checked g s pre (Map.empty, t)) (GetFullName (pre ! i)) \<noteq> None"
    by (rule checked_complete)
qed

text \<open>
  On the small world: the context is cancelled while the line about the skipped
  (archived) second repository is printed, and the check before the third finds it.
\<close>

theorem cancelled_scan_returns_accumulated_witness:
  "searchInRepositories (demo_github (done_from 12 Canceled) 0) (widget_search Map.empty)
       [repo1, repo0, repo2] io0 =
     ([''org/repo1'' \<mapsto> result1], None,
      \<lparr>calls = [CallSearchCode ''acme/widget repo:org/repo1 filename:go.mod'',
                CallDownloadContents ''org'' ''repo1'' ''go.mod'',
                CallDownloadContents ''org'' ''repo1'' ''tools/go.mod'',
                CallSleep 7],
       stdout = [MsgCheckingRepository ''org/repo1'', MsgSearchedRepository ''org/repo1'', MsgStatusAndTotal,
                 MsgParsed ''go.mod'', MsgFoundPackage ''acme/widget'' ''v1.2.0'' ''org/repo1'',
                 MsgParsed ''tools/go.mod'', MsgSleepingInSearchInRepositories 7,
                 MsgSkippingArchivedDisabledForked ''org/repo0'', MsgContextCanceled]\<rparr>)
   \<and> inspection (demo_github (done_from 12 Canceled) 0) (widget_search Map.empty) repo1 io0 = Some result1
   \<and> inspection (demo_github (done_from 12 Canceled) 0) (widget_search Map.empty) repo0
         (snd (checked (demo_github (done_from 12 Canceled) 0) (widget_search Map.empty) [repo1] (Map.empty, io0)))
       = None"
proof -
  let ?g = "demo_github (done_from 12 Canceled) 0"
  let ?s = "widget_search Map.empty"
  have c0: "ctx_Err (ctx ?g) (moment (snd (checked ?g ?s [] (Map.empty, io0)))) = None"
    by (simp add: demo_github_def done_from_def ctx_Err_def moment_def io0_def)
  have c1: "ctx_Err (ctx ?g) (moment (snd (checked ?g ?s [repo1] (Map.empty, io0)))) = None"
    unfolding checked_repo1 by (simp add: demo_github_def done_from_def ctx_Err_def moment_def)
  have 1: "\<forall>j < length [repo1, repo0].
             ctx_Err (ctx ?g) (moment (snd (checked ?g ?s (take j [repo1, repo0]) (Map.empty, io0)))) = None"
  proof (intro allI impI)
    fix j :: nat
    assume "j < length [repo1, repo0]"
    then have "j = 0 \<or> j = 1" by auto
    with c0 c1 show "ctx_Err (ctx ?g) (moment (snd (checked ?g ?s (take j [repo1, repo0]) (Map.empty, io0)))) = None"
      by auto
  qed
  have 2: "ctx_Err (ctx ?g) (moment (snd (checked ?g ?s [repo1, repo0] (Map.empty, io0)))) = Some Canceled"
    unfolding checked_repo1_repo0 by (simp add: demo_github_def done_from_def ctx_Err_def moment_def)
  have A: "searchInRepositories ?g ?s ([repo1, repo0] @ repo2 # []) io0 =
             (fst (checked ?g ?s [repo1, repo0] (Map.empty, io0)), None,
              println MsgContextCanceled (snd (checked ?g ?s [repo1, repo0] (Map.empty, io0))))"
    by (rule cancelled_scan_returns_accumulated [OF 1 2, THEN conjunct1])
  have B: "inspection ?g ?s repo1 io0 = Some result1"
  proof -
    have "\<exists>reqs. manifest ?g (Suc (now io0) + 0) repo1 ([root_mod, tools_mod] ! 0) = Some reqs
            \<and> (\<exists>q \<in> set reqs. direct_require ?s q)"
      by (simp add: manifest_def direct_require_def world_defs)
    then have "\<exists>j < length [root_mod, tools_mod]. \<exists>reqs.
            manifest ?g (Suc (now io0) + j) repo1 ([root_mod, tools_mod] ! j) = Some reqs
            \<and> (\<exists>q \<in> set reqs. direct_require ?s q)"
      by (intro exI [of _ 0]) simp
    then show ?thesis
      by (simp add: inspection_def code_query_def world_defs result1_def)
  qed
  have C: "inspection ?g ?s repo0 (snd (checked ?g ?s [repo1] (Map.empty, io0))) = None"
    by (simp add: inspection_def repo0_def)
  from A B C show ?thesis
    unfolding checked_repo1_repo0 by (simp add: println_def)
qed

text \<open>
  C6 as stated fails: the context, not done when the scan starts, is cancelled during
  the code search of the first repository and both downloads are refused. The scan
  returns \<^verbatim>\<open>org/repo1\<close> with \<open>used = False\<close>, stored from an inspection that read no manifest;
  gone through without cancellation, the same repository gives \<open>used = True\<close>.
\<close>

theorem cancelled_inspection_is_stored:
  "searchInRepositories (refusing_github 1 (done_from 2 Canceled) 0) (widget_search Map.empty)
       [repo1, repo2] io0 =
     ([''org/repo1'' \<mapsto> \<lparr>name = ''org/repo1'', used = False, stars = 5000\<rparr>], None,
      \<lparr>calls = [CallSearchCode ''acme/widget repo:org/repo1 filename:go.mod'',
                CallDownloadContents ''org'' ''repo1'' ''go.mod'',
                CallDownloadContents ''org'' ''repo1'' ''tools/go.mod'',
                CallSleep 7],
       stdout = [MsgCheckingRepository ''org/repo1'', MsgSearchedRepository ''org/repo1'', MsgStatusAndTotal,
                 MsgErrorDownloading, MsgErrorDownloading,
                 MsgPackageNotFound ''acme/widget'' ''org/repo1'', MsgSleepingInSearchInRepositories 7,
                 MsgSleepInterrupted Canceled, MsgContextCanceled]\<rparr>)
   \<and> ctx_Err (done_from 2 Canceled) (moment io0) = None
   \<and> fst (check_repository (demo_github never_done 0) (widget_search Map.empty) repo1 Map.empty io0)
         ''org/repo1'' = Some \<lparr>name = ''org/repo1'', used = True, stars = 5000\<rparr>"
  by (simp add: refusing_github_def world_defs step_defs)

text \<open>
  C7, as amended. The claim says that after a failed scan of a page \<^verbatim>\<open>Search\<close> goes on
  with the next page. What holds: the scan fails only when the context is done with
  an error other than \<^verbatim>\<open>Canceled\<close>; \<^verbatim>\<open>Search\<close> then prints the failure, merges nothing of
  that page, makes no further call, and the check at the head of the next iteration
  returns the results accumulated before with the context's error.
\<close>

theorem scan_failure_ends_Search:
  assumes "ctx_Err (ctx g) (moment t) = None"
    and "Search_Repositories g (now t) query page = Some (repos, NextPage)"
    and "searchInRepositories g s repos (do_call (CallSearchRepositories query page) t) = (found, Some e, t1)"
  shows "Search_loop rt g s query page results t =
           Some (results, Some (ErrContext e), println (MsgErrorSearchingTheRepositories e) t1)
         \<and> e \<noteq> Canceled \<and> ctx_Err (ctx g) (moment t1) = Some e"
proof -
  from assms(3) have "ctx_Err (ctx g) (moment t1) = Some e \<and> e \<noteq> Canceled"
    using loop_error_ctx [of g s repos Map.empty _ found e t1] by (simp add: searchInRepositories_def)
  with Search_loop_scan_error [OF assms] show ?thesis by simp
qed

theorem scan_failure_ends_Search_witness:
  "Search_loop (visiting []) (demo_github (done_from 1 DeadlineExceeded) 2) (widget_search Map.empty)
      ''language:go stars:>1000'' 0 page2 io0 =
   Some (page2, Some (ErrContext DeadlineExceeded),
         \<lparr>calls = [CallSearchRepositories ''language:go stars:>1000'' 0],
          stdout = [MsgErrorSearchingTheRepositories DeadlineExceeded]\<rparr>)"
proof -
  let ?g = "demo_github (done_from 1 DeadlineExceeded) 2"
  let ?s = "widget_search Map.empty"
  let ?q = "''language:go stars:>1000''"
  have 1: "ctx_Err (ctx ?g) (moment io0) = None"
    by (simp add: demo_github_def done_from_def step_defs)
  have 2: "Search_Repositories ?g (now io0) ?q 0 = Some ([repo1, repo2], 2)"
    by (simp add: demo_github_def)
  have 3: "searchInRepositories ?g ?s [repo1, repo2] (do_call (CallSearchRepositories ?q 0) io0) =
             (Map.empty, Some DeadlineExceeded, do_call (CallSearchRepositories ?q 0) io0)"
    by (simp add: demo_github_def done_from_def step_defs)
  from scan_failure_ends_Search [OF 1 2 3, of "visiting []" page2, THEN conjunct1]
  show ?thesis
    by (simp add: step_defs)
qed

text \<open>
  C7 as stated fails: the deadline passes during the first repository search, which
  announces page 2 as the next; the scan of the page fails, and \<^verbatim>\<open>Search\<close> returns the
  error after that one call, with no request for page 2.
\<close>

theorem scan_failure_aborts_Search:
  "Search (visiting []) (demo_github (done_from 1 DeadlineExceeded) 2) (widget_search Map.empty)
      ''language:go stars:>1000'' 0 io0 =
   Some (Map.empty, Some (ErrContext DeadlineExceeded),
         \<lparr>calls = [CallSearchRepositories ''language:go stars:>1000'' 0],
          stdout = [MsgErrorSearchingTheRepositories DeadlineExceeded]\<rparr>)"
  unfolding Search_def
  by (subst Search_loop_scan_error [where repos = "[repo1, repo2]" and NextPage = 2 and found = Map.empty
        and e = DeadlineExceeded and ?t1.0 = "do_call (CallSearchRepositories ''language:go stars:>1000'' 0) io0"])
     (simp_all add: demo_github_def done_from_def step_defs)

text \<open>
  C8, as amended. The claim says that after the first file with a direct match no
  further file is downloaded or parsed. The \<^verbatim>\<open>break\<close> of line 355 leaves the loop over
  the entries of one manifest only. What holds: the inspection gives true exactly
  when some file, downloaded and parsed, has a direct require of the package (or
  \<open>used\<close> was true before), so a later file never undoes a match; within one
  manifest, nothing after the first direct match is looked at; and the downloads
  made are those of all the files of the code search, in their order.
\<close>

theorem match_ends_only_require_loop:
  "(fst (check_files g s repo files u t) \<longleftrightarrow>
      u \<or> (\<exists>i < length files. \<exists>reqs. manifest g (now t + i) repo (files ! i) = Some reqs
              \<and> (\<exists>r \<in> set reqs. direct_require s r)))
   \<and> calls (snd (check_files g s repo files u t)) =
       calls t @ map (\<lambda>f. CallDownloadContents (GetOwnerLogin repo) (GetName repo) (GetPath f)) files
   \<and> (direct_require s r \<longrightarrow>
        check_requires s repo (pre @ r # post) u t = check_requires s repo (pre @ [r]) u t)"
  using check_files_used [of g s repo files u t] check_files_calls [of g s repo files u t]
    check_requires_first_match [of s r repo pre post u t]
  by blast

theorem match_ends_only_require_loop_witness:
  "fst (check_files (demo_github never_done 0) (widget_search Map.empty) repo1 [root_mod, tools_mod] False io0)
   \<and> calls (snd (check_files (demo_github never_done 0) (widget_search Map.empty) repo1
                    [root_mod, tools_mod] False io0)) =
       [CallDownloadContents ''org'' ''repo1'' ''go.mod'', CallDownloadContents ''org'' ''repo1'' ''tools/go.mod'']
   \<and> check_requires (widget_search Map.empty) repo1 [widget_indirect, widget_direct, widget_direct] False io0 =
       check_requires (widget_search Map.empty) repo1 [widget_indirect, widget_direct] False io0"
proof -
  let ?g = "demo_github never_done 0"
  let ?s = "widget_search Map.empty"
  note T = match_ends_only_require_loop
             [where g = ?g and s = ?s and repo = repo1 and files = "[root_mod, tools_mod]" and u = False
                and t = io0 and r = widget_direct and pre = "[widget_indirect]" and post = "[widget_direct]"]
  have d: "direct_require ?s widget_direct"
    by (simp add: direct_require_def world_defs)
  have m: "manifest ?g (now io0 + 0) repo1 ([root_mod, tools_mod] ! 0) = Some [widget_direct]"
    by (simp add: manifest_def world_defs)
  have 1: "fst (check_files ?g ?s repo1 [root_mod, tools_mod] False io0)"
    unfolding T [THEN conjunct1] using d m by (intro disjI2 exI [of _ 0]) simp
  have 2: "calls (snd (check_files ?g ?s repo1 [root_mod, tools_mod] False io0)) =
       [CallDownloadContents ''org'' ''repo1'' ''go.mod'', CallDownloadContents ''org'' ''repo1'' ''tools/go.mod'']"
    unfolding T [THEN conjunct2, THEN conjunct1] by (simp add: world_defs io0_def)
  have 3: "check_requires ?s repo1 ([widget_indirect] @ widget_direct # [widget_direct]) False io0 =
       check_requires ?s repo1 ([widget_indirect] @ [widget_direct]) False io0"
    by (rule T [THEN conjunct2, THEN conjunct2, THEN mp, OF d])
  from 1 2 3 show ?thesis by simp
qed

text \<open>
  C8 as stated fails: \<^verbatim>\<open>go.mod\<close> matches, and \<^verbatim>\<open>tools/go.mod\<close> is downloaded and parsed
  after it.
\<close>

theorem files_after_match_still_downloaded:
  "check_files (demo_github never_done 0) (widget_search Map.empty) repo1 [root_mod, tools_mod] False io0 =
     (True, \<lparr>calls = [CallDownloadContents ''org'' ''repo1'' ''go.mod'',
                      CallDownloadContents ''org'' ''repo1'' ''tools/go.mod''],
             stdout = [MsgParsed ''go.mod'', MsgFoundPackage ''acme/widget'' ''v1.2.0'' ''org/repo1'',
                       MsgParsed ''tools/go.mod'']\<rparr>)"
  by (simp add: world_defs step_defs)

text \<open>
  C9, as amended. The claim says that merging the pages' maps gives the same map in
  every order. What holds: it does when the maps agree on the keys they share, in
  \<^verbatim>\<open>Search\<close> and in \<^verbatim>\<open>run\<close>; in \<^verbatim>\<open>Search\<close> the entry of the page merged last is the one
  kept.
\<close>

theorem merge_order_irrelevant_when_pages_agree:
  "((\<forall>m \<in> set ms. range_order_ok rt m) \<and> (\<forall>m \<in> set ms. \<forall>m' \<in> set ms. agree m m') \<and> mset ms' = mset ms
      \<longrightarrow> merge_pages rt acc ms' = merge_pages rt acc ms)
   \<and> (range_order_ok rt found \<and> found k = Some v
      \<longrightarrow> update_results (range_order rt found) found results k = Some v)
   \<and> (range_order_ok rt newResults \<and> range_order_ok rt results \<and> agree newResults results
      \<longrightarrow> merge_results (range_order rt newResults) newResults results =
          merge_results (range_order rt results) results newResults)"
proof (intro conjI impI)
  assume "(\<forall>m \<in> set ms. range_order_ok rt m) \<and> (\<forall>m \<in> set ms. \<forall>m' \<in> set ms. agree m m') \<and> mset ms' = mset ms"
  then show "merge_pages rt acc ms' = merge_pages rt acc ms"
    by (intro merge_pages_order) simp_all
next
  assume "range_order_ok rt found \<and> found k = Some v"
  then show "update_results (range_order rt found) found results k = Some v"
    by (auto simp: update_results_apply range_order_ok_def)
next
  assume a: "range_order_ok rt newResults \<and> range_order_ok rt results \<and> agree newResults results"
  then have "merge_results (range_order rt newResults) newResults results = newResults ++ results"
    and "merge_results (range_order rt results) results newResults = results ++ newResults"
    by (simp_all add: merge_results_eq range_order_ok_def)
  moreover from a have "newResults ++ results = results ++ newResults"
    by (intro agree_map_add) simp
  ultimately show "merge_results (range_order rt newResults) newResults results =
                 merge_results (range_order rt results) results newResults"
    by simp
qed

theorem merge_order_irrelevant_when_pages_agree_witness:
  "merge_pages (visiting [''org/repo1'', ''org/repo2'']) Map.empty [page2, page1] =
     merge_pages (visiting [''org/repo1'', ''org/repo2'']) Map.empty [page1, page2]
   \<and> update_results (range_order (visiting [''org/repo1'', ''org/repo2'']) page1_later) page1_later page2
        ''org/repo1'' = Some (result1\<lparr>stars := 5001\<rparr>)
   \<and> merge_results (range_order (visiting [''org/repo1'', ''org/repo2'']) page1) page1 page2 =
     merge_results (range_order (visiting [''org/repo1'', ''org/repo2'']) page2) page2 page1"
proof -
  let ?rt = "visiting [''org/repo1'', ''org/repo2'']"
  note T = merge_order_irrelevant_when_pages_agree
         [where ms = "[page1, page2]" and rt = ?rt and ms' = "[page2, page1]" and acc = Map.empty
            and found = page1_later and k = "''org/repo1''" and v = "result1\<lparr>stars := 5001\<rparr>"
            and results = page2 and newResults = page1]
  have ok: "range_order_ok ?rt page1" "range_order_ok ?rt page2" "range_order_ok ?rt page1_later"
    by (auto simp: range_order_ok_def world_defs result1_def result2_def page1_def page1_later_def page2_def)
  have ag: "agree page1 page2" "agree page2 page1" "agree page1 page1" "agree page2 page2"
    by (auto simp: agree_def world_defs result1_def result2_def page1_def page1_later_def page2_def)
  have l: "page1_later ''org/repo1'' = Some (result1\<lparr>stars := 5001\<rparr>)"
    by (simp add: world_defs result1_def result2_def page1_def page1_later_def page2_def)
  have 1: "merge_pages ?rt Map.empty [page2, page1] = merge_pages ?rt Map.empty [page1, page2]"
    by (rule T [THEN conjunct1, THEN mp]) (simp add: ok ag)
  have 2: "update_results (range_order ?rt page1_later) page1_later page2 ''org/repo1'' =
             Some (result1\<lparr>stars := 5001\<rparr>)"
    by (rule T [THEN conjunct2, THEN conjunct1, THEN mp]) (simp add: ok l)
  have 3: "merge_results (range_order ?rt page1) page1 page2 = merge_results (range_order ?rt page2) page2 page1"
    by (rule T [THEN conjunct2, THEN conjunct2, THEN mp]) (simp add: ok ag)
  from 1 2 3 show ?thesis by (intro conjI)
qed

text \<open>
  C9 as stated fails: two pages hold the same repository with 5000 and with 5001
  stars; the result has the count of whichever page is merged last.
\<close>

theorem page_merge_order_matters:
  "merge_pages (visiting [''org/repo1'']) Map.empty [page1, page1_later] ''org/repo1'' =
      Some \<lparr>name = ''org/repo1'', used = True, stars = 5001\<rparr>
   \<and> merge_pages (visiting [''org/repo1'']) Map.empty [page1_later, page1] ''org/repo1'' =
      Some \<lparr>name = ''org/repo1'', used = True, stars = 5000\<rparr>
   \<and> merge_pages (visiting [''org/repo1'']) Map.empty [page1, page1_later] \<noteq>
      merge_pages (visiting [''org/repo1'']) Map.empty [page1_later, page1]"
proof -
  let ?rt = "visiting [''org/repo1'']"
  have 1: "merge_pages ?rt Map.empty [page1, page1_later] ''org/repo1'' =
             Some \<lparr>name = ''org/repo1'', used = True, stars = 5001\<rparr>"
    by (simp add: merge_pages_def update_results_apply world_defs result1_def page1_def page1_later_def)
  have 2: "merge_pages ?rt Map.empty [page1_later, page1] ''org/repo1'' =
             Some \<lparr>name = ''org/repo1'', used = True, stars = 5000\<rparr>"
    by (simp add: merge_pages_def update_results_apply world_defs result1_def page1_def page1_later_def)
  have 3: "merge_pages ?rt Map.empty [page1, page1_later] \<noteq> merge_pages ?rt Map.empty [page1_later, page1]"
  proof
    assume "merge_pages ?rt Map.empty [page1, page1_later] = merge_pages ?rt Map.empty [page1_later, page1]"
    then have "merge_pages ?rt Map.empty [page1, page1_later] ''org/repo1'' =
                 merge_pages ?rt Map.empty [page1_later, page1] ''org/repo1''"
      by simp
    with 1 2 show False by simp
  qed
  from 1 2 3 show ?thesis by (intro conjI)
qed

text \<open>
  C10. Some cache file that the CSV reader accepts makes the load read out of range:
  when the rows all have the same number of fields and that number is below three,
  the reader returns them and the first \<^verbatim>\<open>record[2]\<close> panics, where a corruption error
  was due. When every row has at least three fields the load never panics.
\<close>

theorem short_rows_panic:
  "(rows \<noteq> [] \<and> (\<forall>r \<in> set rows. length r = n) \<and> n < 3 \<longrightarrow>
      csv_ReadAll rows = Inr rows \<and> load_cache (Rows rows) = Inl PanicIndexOutOfRange)
   \<and> ((\<forall>r \<in> set rows. 3 \<le> length r) \<longrightarrow> load_cache (Rows rows) \<noteq> Inl PanicIndexOutOfRange)"
proof (intro conjI impI)
  assume a: "rows \<noteq> [] \<and> (\<forall>r \<in> set rows. length r = n) \<and> n < 3"
  then show r: "csv_ReadAll rows = Inr rows"
    by (simp add: csv_ReadAll_accepts)
  from a obtain x xs where "rows = x # xs" "length x < 3"
    by (cases rows) auto
  with r show "load_cache (Rows rows) = Inl PanicIndexOutOfRange"
    by (simp add: load_cache_def OpenFile_def)
next
  assume a: "\<forall>r \<in> set rows. 3 \<le> length r"
  from csv_ReadAll_cases [of rows] load_records_no_panic [OF a, of Map.empty]
  show "load_cache (Rows rows) \<noteq> Inl PanicIndexOutOfRange"
    by (auto simp: load_cache_def OpenFile_def)
qed

theorem short_rows_panic_witness:
  "load_cache (Rows [[''org/x'', ''true'']]) = Inl PanicIndexOutOfRange
   \<and> load_cache (Rows [[''org/x'', ''true'', ''5000'']]) \<noteq> Inl PanicIndexOutOfRange"
  using short_rows_panic [of "[[''org/x'', ''true'']]" 2]
    short_rows_panic [of "[[''org/x'', ''true'', ''5000'']]" 3]
  by simp

end
